theory Spec2Isabelle
  imports
    Complex_Main
    "HOL-Library.AList"
    "HOL-Library.Multiset"
    "HOL-Library.Char_ord"
    "HOL-Library.List_Lexorder"
begin

section \<open>build.js of white\_silence\_black\_ink: the static site generator\<close>

text \<open>
  The script reads JSON content and HTML templates below its own directory (ROOT),
  substitutes placeholder tokens and writes the pages to \<^verbatim>\<open>dist/\<close>. The embedding
  follows the source function by function. What the script takes from Node.js and
  does not define itself (\<^verbatim>\<open>JSON.parse\<close>, \<^verbatim>\<open>JSON.stringify\<close>,
  \<^verbatim>\<open>String.prototype.localeCompare\<close>, the printing of numbers) is a parameter, the
  record \<open>host\<close>; the file system is a tree of directories and files; console output
  is a list of lines; an exception is a value of type \<open>js_error\<close>.

  A file holds bytes. A JavaScript string is represented by its UTF-8 encoding, the
  bytes \<^verbatim>\<open>writeFileSync\<close> writes for it; \<^verbatim>\<open>readFileSync\<close> with the encoding
  \<^verbatim>\<open>'utf-8'\<close> decodes the bytes of a file into a string (\<open>toString_utf8\<close> below).
  Every token and every special character the script looks for is ASCII, so searching
  the encoding finds what searching the UTF-16 code units finds. A string with an
  unpaired surrogate, which only an escape in a JSON text can denote, has no encoding
  and is not represented.
\<close>

subsection \<open>JSON values\<close>

text \<open>
  A value as \<^verbatim>\<open>JSON.parse\<close> returns it. A number is the real it denotes (no claim
  depends on more than whether it is zero). An object is its list of members in
  insertion order; \<^verbatim>\<open>JSON.parse\<close> yields objects whose keys are distinct.
  The JavaScript value \<^verbatim>\<open>undefined\<close>, which no JSON text denotes and a missing
  property reads as, is \<open>None\<close> of \<open>json option\<close>.
\<close>

datatype json =
    JNull
  | JBool bool
  | JNum real
  | JStr string
  | JArr "json list"
  | JObj "(string \<times> json) list"

datatype js_error =
    TypeError
  | SyntaxError string
  | SystemError string

text \<open>\<^verbatim>\<open>e.message\<close>. The script reads it only in the \<^verbatim>\<open>catch\<close> of
  \<open>readPosts\<close>, whose \<^verbatim>\<open>try\<close> block raises no \<open>TypeError\<close>.\<close>

fun message :: "js_error \<Rightarrow> string" where
  "message TypeError = []"
| "message (SyntaxError m) = m"
| "message (SystemError m) = m"

record host =
  JSON_parse :: "string \<Rightarrow> string + json"
  JSON_stringify :: "json \<Rightarrow> string"
  localeCompare :: "string \<Rightarrow> string \<Rightarrow> int"
  Number_toString :: "real \<Rightarrow> string"

text \<open>
  \<open>JSON_parse h s\<close> is \<open>Inr v\<close> for the value of the text \<open>s\<close>, or \<open>Inl m\<close> when
  \<^verbatim>\<open>JSON.parse\<close> throws a \<open>SyntaxError\<close> with message \<open>m\<close>.
  \<open>JSON_stringify h v\<close> is \<^verbatim>\<open>JSON.stringify(v, null, 2)\<close>.
  \<open>localeCompare h s t\<close> is \<^verbatim>\<open>s.localeCompare(t)\<close>: negative, zero or positive as
  \<open>s\<close> sorts before, with or after \<open>t\<close> in the collation of the host's default locale.
\<close>

text \<open>Truthiness: of the JSON values, \<^verbatim>\<open>null\<close>, \<^verbatim>\<open>false\<close>, \<^verbatim>\<open>0\<close> and
  the empty string are falsy.\<close>

fun truthy :: "json \<Rightarrow> bool" where
  "truthy JNull = False"
| "truthy (JBool b) = b"
| "truthy (JNum x) = (x \<noteq> 0)"
| "truthy (JStr s) = (s \<noteq> [])"
| "truthy (JArr xs) = True"
| "truthy (JObj kvs) = True"

text \<open>
  Reading a property \<^verbatim>\<open>v.k\<close>, for the names the script reads (\<^verbatim>\<open>date\<close>,
  \<^verbatim>\<open>body\<close>, \<^verbatim>\<open>en\<close>, \<^verbatim>\<open>es\<close>, \<^verbatim>\<open>contact_email\<close>): none of them is defined on a
  built-in prototype, so only an object's own member is found. On \<^verbatim>\<open>null\<close> and
  \<^verbatim>\<open>undefined\<close> the read throws a \<open>TypeError\<close>.
\<close>

fun get_prop :: "json option \<Rightarrow> string \<Rightarrow> js_error + json option" where
  "get_prop None k = Inl TypeError"
| "get_prop (Some JNull) k = Inl TypeError"
| "get_prop (Some (JObj kvs)) k = Inr (map_of kvs k)"
| "get_prop (Some v) k = Inr None"

text \<open>\<^verbatim>\<open>x || ''\<close>.\<close>

fun or_empty :: "json option \<Rightarrow> json" where
  "or_empty None = JStr []"
| "or_empty (Some v) = (if truthy v then v else JStr [])"

fun join_comma :: "string list \<Rightarrow> string" where
  "join_comma [] = []"
| "join_comma [s] = s"
| "join_comma (s # t # ss) = s @ '','' @ join_comma (t # ss)"

text \<open>
  \<open>ToString\<close> of a value, as a template literal, \<^verbatim>\<open>localeCompare\<close> and
  \<^verbatim>\<open>replace\<close> apply it to an argument. An array prints its elements joined by commas,
  \<^verbatim>\<open>null\<close> as nothing. An object prints \<^verbatim>\<open>[object Object]\<close>, which is what the
  method \<^verbatim>\<open>toString\<close> it inherits returns; an object with a member \<^verbatim>\<open>toString\<close> of
  its own has a value there that is no function, and its conversion throws a
  \<open>TypeError\<close>.
\<close>

fun first_error :: "(js_error + 'a) list \<Rightarrow> js_error + 'a list" where
  "first_error [] = Inr []"
| "first_error (Inl e # rest) = Inl e"
| "first_error (Inr x # rest) =
     (case first_error rest of Inl e \<Rightarrow> Inl e | Inr xs \<Rightarrow> Inr (x # xs))"

fun to_string :: "host \<Rightarrow> json \<Rightarrow> js_error + string" where
  "to_string h JNull = Inr ''null''"
| "to_string h (JBool b) = Inr (if b then ''true'' else ''false'')"
| "to_string h (JNum x) = Inr (Number_toString h x)"
| "to_string h (JStr s) = Inr s"
| "to_string h (JArr xs) =
     (case first_error (map (\<lambda>x. if x = JNull then Inr [] else to_string h x) xs) of
        Inl e \<Rightarrow> Inl e
      | Inr texts \<Rightarrow> Inr (join_comma texts))"
| "to_string h (JObj kvs) =
     (if map_of kvs ''toString'' = None then Inr ''[object Object]'' else Inl TypeError)"

fun to_string_opt :: "host \<Rightarrow> json option \<Rightarrow> js_error + string" where
  "to_string_opt h None = Inr ''undefined''"
| "to_string_opt h (Some v) = to_string h v"

subsection \<open>String.prototype.replace with a string pattern\<close>

text \<open>
  \<^verbatim>\<open>s.replace(pattern, replacement)\<close> with two strings replaces the first occurrence
  of the pattern only, and the replacement is a template: in it \<^verbatim>\<open>$$\<close> stands for a
  dollar sign, \<^verbatim>\<open>$&\<close> for the matched text, \<^verbatim>\<open>$\<close> and a backquote for the text before
  the match, \<^verbatim>\<open>$'\<close> for the text after it. With a string pattern there are no capture
  groups, so \<^verbatim>\<open>$1\<close> and every other \<^verbatim>\<open>$x\<close> stand for themselves.
\<close>

fun split_first :: "string \<Rightarrow> string \<Rightarrow> (string \<times> string) option" where
  "split_first pat [] = (if pat = [] then Some ([], []) else None)"
| "split_first pat (c # cs) =
     (if take (length pat) (c # cs) = pat then Some ([], drop (length pat) (c # cs))
      else map_option (\<lambda>(leading, trailing). (c # leading, trailing)) (split_first pat cs))"

fun get_substitution :: "string \<Rightarrow> string \<Rightarrow> string \<Rightarrow> string \<Rightarrow> string" where
  "get_substitution matched leading trailing [] = []"
| "get_substitution matched leading trailing [c] = [c]"
| "get_substitution matched leading trailing (c # d # r) =
     (if c = CHR ''$'' then
        if d = CHR ''$'' then CHR ''$'' # get_substitution matched leading trailing r
        else if d = CHR ''&'' then matched @ get_substitution matched leading trailing r
        else if d = CHR 0x60 then leading @ get_substitution matched leading trailing r
        else if d = CHR 0x27 then trailing @ get_substitution matched leading trailing r
        else c # get_substitution matched leading trailing (d # r)
      else c # get_substitution matched leading trailing (d # r))"

definition replace :: "string \<Rightarrow> string \<Rightarrow> string \<Rightarrow> string" where
  "replace s pat replacement =
     (case split_first pat s of
        None \<Rightarrow> s
      | Some (leading, trailing) \<Rightarrow>
          leading @ get_substitution pat leading trailing replacement @ trailing)"

subsection \<open>The file system below ROOT\<close>

text \<open>
  A directory is the list of its entries, in the order \<^verbatim>\<open>readdirSync\<close> lists them;
  a file is its bytes. A path is the list of its components below ROOT, the directory
  that holds build.js: \<^verbatim>\<open>path.join(ROOT, 'content', 'posts')\<close> is
  \<open>[''content'', ''posts'']\<close>. Permissions, links and I/O failures are not modelled:
  an operation fails only where the tree itself forbids it.
\<close>

datatype node =
    File string
  | Dir "(string \<times> node) list"

type_synonym dir = "(string \<times> node) list"

type_synonym path = "string list"

fun lookup :: "dir \<Rightarrow> path \<Rightarrow> node option" where
  "lookup es [] = Some (Dir es)"
| "lookup es (c # cs) =
     (case map_of es c of
        None \<Rightarrow> None
      | Some (File s) \<Rightarrow> (if cs = [] then Some (File s) else None)
      | Some (Dir sub) \<Rightarrow> lookup sub cs)"

text \<open>Storing a node at a path whose parent directory exists: an entry of that name is
  replaced where it stands, a new one is added at the end. The errors carry the code
  Node.js reports.\<close>

fun write_at :: "path \<Rightarrow> node \<Rightarrow> dir \<Rightarrow> js_error + dir" where
  "write_at [] n es = Inl (SystemError ''EISDIR'')"
| "write_at [c] n es = Inr (AList.update c n es)"
| "write_at (c # c' # cs) n es =
     (case map_of es c of
        None \<Rightarrow> Inl (SystemError ''ENOENT'')
      | Some (File s) \<Rightarrow> Inl (SystemError ''ENOTDIR'')
      | Some (Dir sub) \<Rightarrow>
          (case write_at (c' # cs) n sub of
             Inl e \<Rightarrow> Inl e
           | Inr sub' \<Rightarrow> Inr (AList.update c (Dir sub') es)))"

text \<open>\<^verbatim>\<open>fs.mkdirSync(p, { recursive: true })\<close>: creates every missing directory of
  the path.\<close>

fun mkdir_p :: "path \<Rightarrow> dir \<Rightarrow> js_error + dir" where
  "mkdir_p [] es = Inr es"
| "mkdir_p (c # cs) es =
     (case map_of es c of
        None \<Rightarrow>
          (case mkdir_p cs [] of
             Inl e \<Rightarrow> Inl e
           | Inr sub' \<Rightarrow> Inr (AList.update c (Dir sub') es))
      | Some (File s) \<Rightarrow> Inl (SystemError ''EEXIST'')
      | Some (Dir sub) \<Rightarrow>
          (case mkdir_p cs sub of
             Inl e \<Rightarrow> Inl e
           | Inr sub' \<Rightarrow> Inr (AList.update c (Dir sub') es)))"

text \<open>\<^verbatim>\<open>fs.rmSync(p, { recursive: true, force: true })\<close>: removes the file or the
  whole directory at the path; nothing happens when there is none.\<close>

fun rm_rf :: "path \<Rightarrow> dir \<Rightarrow> dir" where
  "rm_rf [] es = es"
| "rm_rf [c] es = AList.delete c es"
| "rm_rf (c # c' # cs) es =
     (case map_of es c of
        Some (Dir sub) \<Rightarrow> AList.update c (Dir (rm_rf (c' # cs) sub)) es
      | _ \<Rightarrow> es)"

definition write_file :: "path \<Rightarrow> string \<Rightarrow> dir \<Rightarrow> js_error + dir" where
  "write_file p data es =
     (case lookup es p of
        Some (Dir sub) \<Rightarrow> Inl (SystemError ''EISDIR: illegal operation on a directory, open'')
      | _ \<Rightarrow> write_at p (File data) es)"

subsection \<open>Computations: file system state, console output, abrupt completion\<close>

text \<open>
  A computation takes the file system and returns its result or the way it ended
  abruptly (a thrown exception, or \<^verbatim>\<open>process.exit\<close>), the file system it leaves
  and the console lines it printed.
\<close>

datatype abrupt =
    Throw js_error
  | Exit nat

datatype console = Console_log | Console_warn | Console_error

type_synonym line = "console \<times> string"

type_synonym 'a io = "dir \<Rightarrow> (abrupt + 'a) \<times> dir \<times> line list"

definition io_return :: "'a \<Rightarrow> 'a io" where
  "io_return x fs = (Inr x, fs, [])"

definition io_bind :: "'a io \<Rightarrow> ('a \<Rightarrow> 'b io) \<Rightarrow> 'b io" where
  "io_bind m k fs =
     (case m fs of
        (Inl a, fs', out) \<Rightarrow> (Inl a, fs', out)
      | (Inr x, fs', out) \<Rightarrow>
          (case k x fs' of (r, fs'', out') \<Rightarrow> (r, fs'', out @ out')))"

definition io_throw :: "js_error \<Rightarrow> 'a io" where
  "io_throw e fs = (Inl (Throw e), fs, [])"

definition process_exit :: "nat \<Rightarrow> 'a io" where
  "process_exit code fs = (Inl (Exit code), fs, [])"

text \<open>\<^verbatim>\<open>try { m } catch (e) { handler e }\<close>: catches what was thrown, not the end of
  the process.\<close>

definition try_catch :: "'a io \<Rightarrow> (js_error \<Rightarrow> 'a io) \<Rightarrow> 'a io" where
  "try_catch m handler fs =
     (case m fs of
        (Inl (Throw e), fs', out) \<Rightarrow>
          (case handler e fs' of (r, fs'', out') \<Rightarrow> (r, fs'', out @ out'))
      | r \<Rightarrow> r)"

text \<open>A pure step that may throw, and a step that changes the file system.\<close>

definition io_lift :: "js_error + 'a \<Rightarrow> 'a io" where
  "io_lift r fs = (case r of Inl e \<Rightarrow> (Inl (Throw e), fs, []) | Inr x \<Rightarrow> (Inr x, fs, []))"

definition io_update :: "(dir \<Rightarrow> js_error + dir) \<Rightarrow> unit io" where
  "io_update f fs = (case f fs of Inl e \<Rightarrow> (Inl (Throw e), fs, []) | Inr fs' \<Rightarrow> (Inr (), fs', []))"

fun for_each :: "'a list \<Rightarrow> ('a \<Rightarrow> unit io) \<Rightarrow> unit io" where
  "for_each [] body = io_return ()"
| "for_each (x # xs) body = io_bind (body x) (\<lambda>_. for_each xs body)"

definition console_log :: "string \<Rightarrow> unit io" where
  "console_log s fs = (Inr (), fs, [(Console_log, s)])"

definition console_warn :: "string \<Rightarrow> unit io" where
  "console_warn s fs = (Inr (), fs, [(Console_warn, s)])"

definition console_error :: "string \<Rightarrow> unit io" where
  "console_error s fs = (Inr (), fs, [(Console_error, s)])"

subsection \<open>Decoding UTF-8\<close>

text \<open>
  \<^verbatim>\<open>buffer.toString('utf-8')\<close>, given as the encoding of the string it returns:
  well-formed UTF-8 stands as it is (a byte order mark too), and every ill-formed
  sequence becomes U+FFFD, the bytes \<^verbatim>\<open>EF BF BD\<close>. The decoder is the one of the
  Encoding Standard: its state is the number of bytes the current character still
  needs, the bounds of the next byte, and the bytes of the character seen so far.
\<close>

definition replacement_character :: string where
  "replacement_character = [CHR 0xEF, CHR 0xBF, CHR 0xBD]"

type_synonym utf8_state = "nat \<times> nat \<times> nat \<times> string"

definition utf8_idle :: utf8_state where
  "utf8_idle = (0, 0x80, 0xBF, [])"

text \<open>A byte where a character starts: what it contributes, and the state after it.\<close>

definition utf8_first :: "char \<Rightarrow> string \<times> utf8_state" where
  "utf8_first b =
     (let n = (of_char b :: nat) in
      if n \<le> 0x7F then ([b], utf8_idle)
      else if 0xC2 \<le> n \<and> n \<le> 0xDF then ([], (1, 0x80, 0xBF, [b]))
      else if 0xE0 \<le> n \<and> n \<le> 0xEF then
        ([], (2, if n = 0xE0 then 0xA0 else 0x80, if n = 0xED then 0x9F else 0xBF, [b]))
      else if 0xF0 \<le> n \<and> n \<le> 0xF4 then
        ([], (3, if n = 0xF0 then 0x90 else 0x80, if n = 0xF4 then 0x8F else 0xBF, [b]))
      else (replacement_character, utf8_idle))"

fun utf8_decode :: "utf8_state \<Rightarrow> string \<Rightarrow> string" where
  "utf8_decode (needed, lower, upper, seen) [] = (if needed = 0 then [] else replacement_character)"
| "utf8_decode (needed, lower, upper, seen) (b # bs) =
     (if needed = 0 then
        (case utf8_first b of (out, state) \<Rightarrow> out @ utf8_decode state bs)
      else if lower \<le> of_char b \<and> of_char b \<le> upper then
        (if needed = 1 then seen @ [b] @ utf8_decode utf8_idle bs
         else utf8_decode (needed - 1, 0x80, 0xBF, seen @ [b]) bs)
      else
        (case utf8_first b of (out, state) \<Rightarrow> replacement_character @ out @ utf8_decode state bs))"

definition toString_utf8 :: "string \<Rightarrow> string" where
  "toString_utf8 bytes = utf8_decode utf8_idle bytes"

subsection \<open>The calls of Node's fs module\<close>

text \<open>\<open>readFileSync\<close> is \<^verbatim>\<open>fs.readFileSync(p, 'utf-8')\<close>, as every call of the script
  is; \<open>copyFileSync\<close> copies the bytes.\<close>

definition existsSync :: "path \<Rightarrow> bool io" where
  "existsSync p fs = (Inr (lookup fs p \<noteq> None), fs, [])"

definition readFileSync :: "path \<Rightarrow> string io" where
  "readFileSync p fs =
     (case lookup fs p of
        None \<Rightarrow> (Inl (Throw (SystemError ''ENOENT: no such file or directory, open'')), fs, [])
      | Some (Dir sub) \<Rightarrow>
          (Inl (Throw (SystemError ''EISDIR: illegal operation on a directory, read'')), fs, [])
      | Some (File bytes) \<Rightarrow> (Inr (toString_utf8 bytes), fs, []))"

text \<open>\<^verbatim>\<open>readdirSync(p, { withFileTypes: true })\<close> returns the entries; an entry's
  \<^verbatim>\<open>name\<close> is its first component, and \<^verbatim>\<open>isDirectory()\<close> holds when the second
  is a \<open>Dir\<close>. Without the option the call returns the names.\<close>

definition readdirSync_withFileTypes :: "path \<Rightarrow> dir io" where
  "readdirSync_withFileTypes p fs =
     (case lookup fs p of
        None \<Rightarrow> (Inl (Throw (SystemError ''ENOENT: no such file or directory, scandir'')), fs, [])
      | Some (File s) \<Rightarrow> (Inl (Throw (SystemError ''ENOTDIR: not a directory, scandir'')), fs, [])
      | Some (Dir sub) \<Rightarrow> (Inr sub, fs, []))"

definition readdirSync :: "path \<Rightarrow> string list io" where
  "readdirSync p = io_bind (readdirSync_withFileTypes p) (\<lambda>entries. io_return (map fst entries))"

definition rmSync :: "path \<Rightarrow> unit io" where
  "rmSync p = io_update (\<lambda>fs. Inr (rm_rf p fs))"

definition mkdirSync :: "path \<Rightarrow> unit io" where
  "mkdirSync p = io_update (mkdir_p p)"

definition writeFileSync :: "path \<Rightarrow> string \<Rightarrow> unit io" where
  "writeFileSync p data = io_update (write_file p data)"

text \<open>A copy that fails is taken to leave the destination as it was.\<close>

definition copyFileSync :: "path \<Rightarrow> path \<Rightarrow> unit io" where
  "copyFileSync src dest fs =
     (case lookup fs src of
        None \<Rightarrow> (Inl (Throw (SystemError ''ENOENT: no such file or directory, copyfile'')), fs, [])
      | Some (Dir sub) \<Rightarrow>
          (Inl (Throw (SystemError ''EISDIR: illegal operation on a directory, copyfile'')), fs, [])
      | Some (File s) \<Rightarrow> io_update (write_file dest s) fs)"

subsection \<open>Texts\<close>

text \<open>The glyphs of the console lines and the one letter of the origin fragment outside
  ASCII, as their UTF-8 bytes.\<close>

definition check_mark :: string where
  "check_mark = [CHR 0xE2, CHR 0x9C, CHR 0x93]"

definition warning_sign :: string where
  "warning_sign = [CHR 0xE2, CHR 0x9A, CHR 0xA0]"

definition ballot_x :: string where
  "ballot_x = [CHR 0xE2, CHR 0x9C, CHR 0x97]"

definition em_dash :: string where
  "em_dash = [CHR 0xE2, CHR 0x80, CHR 0x94]"

definition heavy_line :: string where
  "heavy_line = [CHR 0xE2, CHR 0x94, CHR 0x81]"

definition n_tilde :: string where
  "n_tilde = [CHR 0xC3, CHR 0xB1]"

definition newline :: string where
  "newline = [CHR 0x0A]"

text \<open>The decimal digits of a length, as a template literal prints it.\<close>

fun show_nat :: "nat \<Rightarrow> string" where
  "show_nat n =
     (if n < 10 then [''0123456789'' ! n]
      else show_nat (n div 10) @ [''0123456789'' ! (n mod 10)])"

declare show_nat.simps [simp del]

text \<open>\<^verbatim>\<open>s.endsWith(suffix)\<close>.\<close>

definition endsWith :: "string \<Rightarrow> string \<Rightarrow> bool" where
  "endsWith s suffix =
     (length suffix \<le> length s \<and> drop (length s - length suffix) s = suffix)"

subsection \<open>Array.prototype.sort with a comparator\<close>

text \<open>
  ECMAScript requires a stable sort and leaves the sequence of comparator calls to the
  implementation. The model follows V8, the engine of Node.js (\<^verbatim>\<open>array-sort.tq\<close>). An
  array of fewer than two elements is returned without a call. Otherwise the run the
  array starts with is found, each element being compared with the one before it, as
  \<open>comparefn current previous\<close>; a run that descends strictly is reversed. Every
  element after the run is then inserted into the sorted part, at the place a binary
  search finds with the calls \<open>comparefn pivot element\<close>. An exception of the comparator
  ends the sort. V8 sorts an array of fewer than 64 elements in exactly this way; a
  longer array it cuts into several runs of this kind and merges them, with comparator
  calls of its own that the model does not follow.
\<close>

text \<open>\<^verbatim>\<open>CountAndMakeRun\<close>: the run the array starts with. \<open>extend_run\<close> is its loop, which
  counts the elements that continue the run after the first two.\<close>

fun extend_run :: "('a \<Rightarrow> 'a \<Rightarrow> js_error + int) \<Rightarrow> bool \<Rightarrow> 'a \<Rightarrow> 'a list \<Rightarrow> js_error + nat" where
  "extend_run comparefn descending previous [] = Inr 0"
| "extend_run comparefn descending previous (current # rest) =
     (case comparefn current previous of
        Inl e \<Rightarrow> Inl e
      | Inr order \<Rightarrow>
          if (if descending then 0 \<le> order else order < 0) then Inr 0
          else (case extend_run comparefn descending current rest of
                  Inl e \<Rightarrow> Inl e
                | Inr n \<Rightarrow> Inr (Suc n)))"

fun count_and_make_run ::
  "('a \<Rightarrow> 'a \<Rightarrow> js_error + int) \<Rightarrow> 'a list \<Rightarrow> js_error + 'a list \<times> 'a list" where
  "count_and_make_run comparefn (element_high # element_low # rest) =
     (case comparefn element_low element_high of
        Inl e \<Rightarrow> Inl e
      | Inr order \<Rightarrow>
          (case extend_run comparefn (order < 0) element_low rest of
             Inl e \<Rightarrow> Inl e
           | Inr n \<Rightarrow>
               Inr (if order < 0 then rev (element_high # element_low # take n rest)
                    else element_high # element_low # take n rest,
                    drop n rest)))"
| "count_and_make_run comparefn work = Inr (work, [])"

text \<open>\<^verbatim>\<open>BinaryInsertionSort\<close>: the place of the pivot in the sorted part \<open>work\<close> is
  searched between \<open>left\<close> and \<open>right\<close>, and the pivot is inserted there.\<close>

function binary_search ::
  "('a \<Rightarrow> 'a \<Rightarrow> js_error + int) \<Rightarrow> 'a \<Rightarrow> 'a list \<Rightarrow> nat \<Rightarrow> nat \<Rightarrow> js_error + nat" where
  "binary_search comparefn pivot work left right =
     (if left < right then
        (case comparefn pivot (work ! (left + (right - left) div 2)) of
           Inl e \<Rightarrow> Inl e
         | Inr order \<Rightarrow>
             if order < 0 then binary_search comparefn pivot work left (left + (right - left) div 2)
             else binary_search comparefn pivot work (left + (right - left) div 2 + 1) right)
      else Inr left)"
  by pat_completeness auto

termination
  by (relation "measure (\<lambda>(comparefn, pivot, work, left, right). right - left)") auto

declare binary_search.simps [simp del]

fun binary_insertion_sort ::
  "('a \<Rightarrow> 'a \<Rightarrow> js_error + int) \<Rightarrow> 'a list \<Rightarrow> 'a list \<Rightarrow> js_error + 'a list" where
  "binary_insertion_sort comparefn work [] = Inr work"
| "binary_insertion_sort comparefn work (pivot # rest) =
     (case binary_search comparefn pivot work 0 (length work) of
        Inl e \<Rightarrow> Inl e
      | Inr left \<Rightarrow>
          binary_insertion_sort comparefn (take left work @ pivot # drop left work) rest)"

text \<open>\<^verbatim>\<open>ArrayTimSortImpl\<close> for an array that is sorted as a single run.\<close>

definition Array_sort :: "('a \<Rightarrow> 'a \<Rightarrow> js_error + int) \<Rightarrow> 'a list \<Rightarrow> js_error + 'a list" where
  "Array_sort comparefn xs =
     (if length xs < 2 then Inr xs
      else
        (case count_and_make_run comparefn xs of
           Inl e \<Rightarrow> Inl e
         | Inr (first_run, rest) \<Rightarrow> binary_insertion_sort comparefn first_run rest))"

subsection \<open>Utilities\<close>

definition DIST_DIR :: path where
  "DIST_DIR = [''dist'']"

definition cleanDir :: "path \<Rightarrow> unit io" where
  "cleanDir p =
     io_bind (existsSync p) (\<lambda>exists.
     io_bind (if exists then rmSync p else io_return ()) (\<lambda>_.
     mkdirSync p))"

definition ensureDir :: "path \<Rightarrow> unit io" where
  "ensureDir p =
     io_bind (existsSync p) (\<lambda>exists.
     if \<not> exists then mkdirSync p else io_return ())"

text \<open>
  The loop of \<open>copyDirSync\<close> over the entries \<^verbatim>\<open>readdirSync\<close> returned. For a
  subdirectory the source calls itself, which lists that directory again; here the
  listing is the entry's own, read with its parent. The two agree as long as the
  copy does not write below its source, and \<open>build\<close> copies \<^verbatim>\<open>assets\<close> to
  \<^verbatim>\<open>dist/assets\<close>.
\<close>

fun copy_entries :: "dir \<Rightarrow> path \<Rightarrow> path \<Rightarrow> unit io" where
  "copy_entries [] src dest = io_return ()"
| "copy_entries ((name, File text) # rest) src dest =
     io_bind (copyFileSync (src @ [name]) (dest @ [name])) (\<lambda>_.
     copy_entries rest src dest)"
| "copy_entries ((name, Dir sub) # rest) src dest =
     io_bind
       (io_bind (ensureDir (dest @ [name])) (\<lambda>_.
        copy_entries sub (src @ [name]) (dest @ [name]))) (\<lambda>_.
     copy_entries rest src dest)"

definition copyDirSync :: "path \<Rightarrow> path \<Rightarrow> unit io" where
  "copyDirSync src dest =
     io_bind (existsSync src) (\<lambda>exists.
     if \<not> exists then io_return ()
     else
       io_bind (ensureDir dest) (\<lambda>_.
       io_bind (readdirSync_withFileTypes src) (\<lambda>entries.
       copy_entries entries src dest)))"

definition JSON_parse_io :: "host \<Rightarrow> string \<Rightarrow> json io" where
  "JSON_parse_io h text =
     io_lift (case JSON_parse h text of Inl m \<Rightarrow> Inl (SyntaxError m) | Inr v \<Rightarrow> Inr v)"

definition readJSON :: "host \<Rightarrow> path \<Rightarrow> json \<Rightarrow> json io" where
  "readJSON h filePath fallback =
     io_bind (existsSync filePath) (\<lambda>exists.
     if \<not> exists then io_return fallback
     else
       try_catch
         (io_bind (readFileSync filePath) (\<lambda>text. JSON_parse_io h text))
         (\<lambda>e. io_return fallback))"

subsection \<open>Content\<close>

text \<open>The comparator of \<open>readPosts\<close>,
  \<^verbatim>\<open>(a, b) => (b.date || '').localeCompare(a.date || '')\<close>: only a string has the method
  \<^verbatim>\<open>localeCompare\<close>, and the method turns its argument into a string.\<close>

definition posts_comparefn :: "host \<Rightarrow> json \<Rightarrow> json \<Rightarrow> js_error + int" where
  "posts_comparefn h a b =
     (case get_prop (Some b) ''date'' of
        Inl e \<Rightarrow> Inl e
      | Inr b_date \<Rightarrow>
          (case get_prop (Some a) ''date'' of
             Inl e \<Rightarrow> Inl e
           | Inr a_date \<Rightarrow>
               (case or_empty b_date of
                  JStr s \<Rightarrow>
                    (case to_string h (or_empty a_date) of
                       Inl e \<Rightarrow> Inl e
                     | Inr that \<Rightarrow> Inr (localeCompare h s that))
                | _ \<Rightarrow> Inl TypeError)))"

text \<open>The \<^verbatim>\<open>for\<close> loop of \<open>readPosts\<close> over the names that end in \<^verbatim>\<open>.json\<close>.\<close>

fun load_posts :: "host \<Rightarrow> path \<Rightarrow> string list \<Rightarrow> json list \<Rightarrow> json list io" where
  "load_posts h dir [] posts = io_return posts"
| "load_posts h dir (f # rest) posts =
     io_bind
       (try_catch
          (io_bind (readFileSync (dir @ [f])) (\<lambda>text.
           io_bind (JSON_parse_io h text) (\<lambda>v.
           io_return (posts @ [v]))))
          (\<lambda>e.
           io_bind (console_warn (''  '' @ warning_sign @ ''  '' @ f @ '': '' @ message e)) (\<lambda>_.
           io_return posts))) (\<lambda>posts'.
     load_posts h dir rest posts')"

definition readPosts :: "host \<Rightarrow> json list io" where
  "readPosts h =
     (let dir = [''content'', ''posts''] in
      io_bind (existsSync dir) (\<lambda>exists.
      if \<not> exists then io_return []
      else
        io_bind (readdirSync dir) (\<lambda>names.
        io_bind (load_posts h dir (filter (\<lambda>f. endsWith f ''.json'') names) []) (\<lambda>posts.
        io_lift (Array_sort (posts_comparefn h) posts)))))"

definition POSTS_JSON :: string where
  "POSTS_JSON = ''/*__POSTS_JSON__*/''"

definition UNLINKED_JSON :: string where
  "UNLINKED_JSON = ''/*__UNLINKED_JSON__*/''"

definition ABOUT_JSON :: string where
  "ABOUT_JSON = ''/*__ABOUT_JSON__*/''"

definition CONTACT_EMAIL :: string where
  "CONTACT_EMAIL = ''/*__CONTACT_EMAIL__*/''"

definition ORIGIN_HTML :: string where
  "ORIGIN_HTML = ''<!-- __ORIGIN_HTML__ -->''"

text \<open>The \<^verbatim>\<open>return\<close> expression of \<open>injectData\<close>: the four calls of \<^verbatim>\<open>replace\<close>, each
  on the result of the one before. Its last argument, \<^verbatim>\<open>site.contact_email || ''\<close>, is
  evaluated last and is turned into a string by \<^verbatim>\<open>replace\<close>.\<close>

definition inject_all :: "host \<Rightarrow> string \<Rightarrow> json list \<Rightarrow> json \<Rightarrow> json \<Rightarrow> json \<Rightarrow> string io" where
  "inject_all h html posts unlinked about site =
     (let html1 = replace html POSTS_JSON (JSON_stringify h (JArr posts));
          html2 = replace html1 UNLINKED_JSON (JSON_stringify h unlinked);
          html3 = replace html2 ABOUT_JSON (JSON_stringify h about)
      in io_bind (io_lift (get_prop (Some site) ''contact_email'')) (\<lambda>contact_email.
         io_bind (io_lift (to_string h (or_empty contact_email))) (\<lambda>address.
         io_return (replace html3 CONTACT_EMAIL address))))"

definition injectData :: "host \<Rightarrow> string \<Rightarrow> string io" where
  "injectData h html =
     io_bind (readPosts h) (\<lambda>posts.
     io_bind (readJSON h [''content'', ''unlinked-comments.json''] (JArr [])) (\<lambda>unlinked.
     io_bind (readJSON h [''content'', ''about.json'']
                (JObj [(''en'', JStr []), (''es'', JStr [])])) (\<lambda>about.
     io_bind (readJSON h [''content'', ''site.json''] (JObj [])) (\<lambda>site.
     io_bind (console_log (''  Found '' @ show_nat (length posts) @ '' post(s)'')) (\<lambda>_.
     inject_all h html posts unlinked about site)))))"

text \<open>The template literal of \<open>buildOriginHTML\<close> with its two holes filled. A template
  literal converts each value to a string before it evaluates the next expression.\<close>

definition origin_fragment :: "string \<Rightarrow> string \<Rightarrow> string" where
  \<open>origin_fragment en es =
     ''            <div class="column english">'' @ newline @
     ''                <div class="lang-label">English</div>'' @ newline @
     ''                '' @ en @ newline @
     ''            </div>'' @ newline @
     newline @
     ''            <div class="column spanish">'' @ newline @
     ''                <div class="lang-label">Espa'' @ n_tilde @ ''ol</div>'' @ newline @
     ''                '' @ es @ newline @
     ''            </div>''\<close>

text \<open>The result is \<open>None\<close> for \<^verbatim>\<open>null\<close>.\<close>

definition buildOriginHTML :: "host \<Rightarrow> string option io" where
  "buildOriginHTML h =
     io_bind (readJSON h [''content'', ''origin.json''] JNull) (\<lambda>origin.
     if \<not> truthy origin then io_return None
     else
       io_bind (io_lift (get_prop (Some origin) ''body'')) (\<lambda>body.
       io_bind (io_lift (get_prop body ''en'')) (\<lambda>en.
       io_bind (io_lift (to_string_opt h en)) (\<lambda>english.
       io_bind (io_lift (get_prop (Some origin) ''body'')) (\<lambda>body'.
       io_bind (io_lift (get_prop body' ''es'')) (\<lambda>es.
       io_bind (io_lift (to_string_opt h es)) (\<lambda>spanish.
       io_return (Some (origin_fragment english spanish)))))))))"

text \<open>Truthiness of a string or \<^verbatim>\<open>null\<close>: the empty string is falsy too.\<close>

fun truthy_string :: "string option \<Rightarrow> bool" where
  "truthy_string None = False"
| "truthy_string (Some s) = (s \<noteq> [])"

definition injectOrigin :: "string \<Rightarrow> string option \<Rightarrow> string" where
  "injectOrigin html originHTML =
     (case originHTML of
        None \<Rightarrow> html
      | Some s \<Rightarrow> if \<not> truthy_string (Some s) then html else replace html ORIGIN_HTML s)"

subsection \<open>Build\<close>

text \<open>The statements of \<open>build\<close>, one definition for each commented part of the source.\<close>

definition origin_step :: "host \<Rightarrow> string option io" where
  "origin_step h =
     io_bind (buildOriginHTML h) (\<lambda>originHTML.
     io_bind
       (if truthy_string originHTML then console_log (''  '' @ check_mark @ '' origin.json loaded'')
        else console_warn (''  '' @ warning_sign @ ''  origin.json not found '' @ em_dash @
               '' origin pages will have empty content'')) (\<lambda>_.
     io_return originHTML))"

definition entry_step :: "unit io" where
  "entry_step =
     (let entryPath = [''templates'', ''entry.html''] in
      io_bind (existsSync entryPath) (\<lambda>exists.
      if exists then
        io_bind (copyFileSync entryPath (DIST_DIR @ [''index.html''])) (\<lambda>_.
        console_log (''  '' @ check_mark @ '' index.html (entry)''))
      else
        io_bind (console_error (''  '' @ ballot_x @ '' templates/entry.html not found '' @ em_dash @
                   '' aborting'')) (\<lambda>_.
        process_exit 1)))"

definition origin_page :: "string option \<Rightarrow> string \<Rightarrow> unit io" where
  "origin_page originHTML page =
     (let srcPath = [''templates'', page] in
      io_bind (existsSync srcPath) (\<lambda>exists.
      if exists then
        io_bind (readFileSync srcPath) (\<lambda>html.
        io_bind (writeFileSync (DIST_DIR @ [page]) (injectOrigin html originHTML)) (\<lambda>_.
        console_log (''  '' @ check_mark @ '' '' @ page @ '' (origin injected)'')))
      else console_warn (''  '' @ warning_sign @ ''  templates/'' @ page @ '' not found'')))"

definition origin_pages_step :: "string option \<Rightarrow> unit io" where
  "origin_pages_step originHTML =
     for_each [''ripple.html'', ''clean.html''] (origin_page originHTML)"

definition blog_step :: "host \<Rightarrow> unit io" where
  "blog_step h =
     (let blogTpl = [''templates'', ''blog.html''] in
      io_bind (existsSync blogTpl) (\<lambda>exists.
      if exists then
        io_bind (readFileSync blogTpl) (\<lambda>html.
        io_bind (injectData h html) (\<lambda>html'.
        io_bind (writeFileSync (DIST_DIR @ [''blog.html'']) html') (\<lambda>_.
        console_log (''  '' @ check_mark @ '' blog.html (SPA)''))))
      else console_warn (''  '' @ warning_sign @ ''  templates/blog.html not found'')))"

definition assets_step :: "unit io" where
  "assets_step =
     (let assetsDir = [''assets''] in
      io_bind (existsSync assetsDir) (\<lambda>exists.
      if exists then
        io_bind (copyDirSync assetsDir (DIST_DIR @ [''assets''])) (\<lambda>_.
        console_log (''  '' @ check_mark @ '' assets/''))
      else io_return ()))"

definition cname_step :: "unit io" where
  "cname_step =
     (let cname = [''CNAME''] in
      io_bind (existsSync cname) (\<lambda>exists.
      if exists then
        io_bind (copyFileSync cname (DIST_DIR @ [''CNAME''])) (\<lambda>_.
        console_log (''  '' @ check_mark @ '' CNAME''))
      else io_return ()))"

text \<open>\<open>elapsed\<close> is the text of \<^verbatim>\<open>((Date.now() - start) / 1000).toFixed(2)\<close>, which
  the host's clock decides; nothing else in the build depends on the time.\<close>

definition build :: "host \<Rightarrow> string \<Rightarrow> unit io" where
  "build h elapsed =
     io_bind (console_log (''white_silence_black_ink '' @ em_dash @ '' build started'')) (\<lambda>_.
     io_bind (cleanDir DIST_DIR) (\<lambda>_.
     io_bind (origin_step h) (\<lambda>originHTML.
     io_bind entry_step (\<lambda>_.
     io_bind (origin_pages_step originHTML) (\<lambda>_.
     io_bind (blog_step h) (\<lambda>_.
     io_bind assets_step (\<lambda>_.
     io_bind cname_step (\<lambda>_.
     console_log (newline @ heavy_line @ heavy_line @ heavy_line @ '' Build complete in '' @
       elapsed @ ''s '' @ heavy_line @ heavy_line @ heavy_line @ newline)))))))))"

text \<open>The process that runs \<^verbatim>\<open>build();\<close>: it ends with exit code 0 when the call
  returns, with the code given to \<^verbatim>\<open>process.exit\<close>, or with code 1 on an uncaught
  exception.\<close>

datatype outcome =
    Completed
  | Exited nat
  | Uncaught js_error

fun outcome_of :: "abrupt + unit \<Rightarrow> outcome" where
  "outcome_of (Inr u) = Completed"
| "outcome_of (Inl (Exit code)) = Exited code"
| "outcome_of (Inl (Throw e)) = Uncaught e"

fun exit_code :: "outcome \<Rightarrow> nat" where
  "exit_code Completed = 0"
| "exit_code (Exited code) = code"
| "exit_code (Uncaught e) = 1"

definition run :: "host \<Rightarrow> string \<Rightarrow> dir \<Rightarrow> outcome \<times> dir \<times> line list" where
  "run h elapsed fs = (case build h elapsed fs of (r, fs', out) \<Rightarrow> (outcome_of r, fs', out))"

section \<open>Notions the properties are stated with\<close>

subsection \<open>The posts directory\<close>

text \<open>What the \<^verbatim>\<open>try\<close> block of \<open>readPosts\<close> yields for one name of the posts directory
  \<open>es\<close>: the parsed value, or the message of the exception that was thrown.\<close>

fun try_post :: "host \<Rightarrow> node option \<Rightarrow> string + json" where
  "try_post h None = Inl ''ENOENT: no such file or directory, open''"
| "try_post h (Some (Dir sub)) = Inl ''EISDIR: illegal operation on a directory, read''"
| "try_post h (Some (File bytes)) = JSON_parse h (toString_utf8 bytes)"

definition post_names :: "dir \<Rightarrow> string list" where
  "post_names es = filter (\<lambda>f. endsWith f ''.json'') (map fst es)"

text \<open>The successfully parsed posts, in the order of the directory.\<close>

definition parsed_posts :: "host \<Rightarrow> dir \<Rightarrow> json list" where
  "parsed_posts h es =
     concat (map (\<lambda>f. case try_post h (map_of es f) of Inl m \<Rightarrow> [] | Inr v \<Rightarrow> [v])
       (post_names es))"

definition post_warning :: "string \<Rightarrow> string \<Rightarrow> line" where
  "post_warning f m = (Console_warn, ''  '' @ warning_sign @ ''  '' @ f @ '': '' @ m)"

definition post_warnings :: "host \<Rightarrow> dir \<Rightarrow> line list" where
  "post_warnings h es =
     concat (map (\<lambda>f. case try_post h (map_of es f) of Inl m \<Rightarrow> [post_warning f m] | Inr v \<Rightarrow> [])
       (post_names es))"

text \<open>The date of a post as the specification reads it: the \<^verbatim>\<open>date\<close> member when it is
  a string, the empty string otherwise.\<close>

fun date_of :: "json \<Rightarrow> string" where
  "date_of (JObj kvs) = (case map_of kvs ''date'' of Some (JStr s) \<Rightarrow> s | _ \<Rightarrow> [])"
| "date_of v = []"

text \<open>A post the comparator accepts: not \<^verbatim>\<open>null\<close>, and its date missing, falsy or a
  string.\<close>

fun date_is_text :: "json \<Rightarrow> bool" where
  "date_is_text JNull = False"
| "date_is_text (JObj kvs) =
     (case map_of kvs ''date'' of None \<Rightarrow> True | Some (JStr s) \<Rightarrow> True | Some d \<Rightarrow> \<not> truthy d)"
| "date_is_text v = True"

text \<open>ECMAScript requires \<^verbatim>\<open>localeCompare\<close> to be a consistent comparison: here, a
  total preorder on strings.\<close>

definition consistent_collation :: "(string \<Rightarrow> string \<Rightarrow> int) \<Rightarrow> bool" where
  "consistent_collation lc \<longleftrightarrow>
     (\<forall>x y. (lc x y < 0) = (0 < lc y x)) \<and>
     (\<forall>x y z. lc x y \<le> 0 \<longrightarrow> lc y z \<le> 0 \<longrightarrow> lc x z \<le> 0)"

subsection \<open>Comparators\<close>

text \<open>A comparator that throws nothing but \<open>t\<close>; an element for which some call of the
  comparator returns; a comparison that is a total preorder.\<close>

definition throws_only :: "('a \<Rightarrow> 'a \<Rightarrow> js_error + int) \<Rightarrow> js_error \<Rightarrow> bool" where
  "throws_only c t \<longleftrightarrow> (\<forall>a b e. c a b = Inl e \<longrightarrow> e = t)"

definition compared :: "('a \<Rightarrow> 'a \<Rightarrow> js_error + int) \<Rightarrow> 'a \<Rightarrow> bool" where
  "compared c x \<longleftrightarrow> (\<exists>y n. c x y = Inr n \<or> c y x = Inr n)"

definition orders :: "('a \<Rightarrow> 'a \<Rightarrow> int) \<Rightarrow> bool" where
  "orders k \<longleftrightarrow>
     (\<forall>a b. (k a b < 0) = (0 < k b a)) \<and>
     (\<forall>a b d. k a b \<le> 0 \<longrightarrow> k b d \<le> 0 \<longrightarrow> k a d \<le> 0)"

subsection \<open>The build\<close>

text \<open>The file system after \<open>cleanDir DIST_DIR\<close>, and the part of a file system outside
  \<^verbatim>\<open>dist\<close>.\<close>

definition cleaned :: "dir \<Rightarrow> dir" where
  "cleaned fs = AList.update ''dist'' (Dir []) (AList.delete ''dist'' fs)"

definition outside_dist :: "dir \<Rightarrow> dir" where
  "outside_dist fs = AList.delete ''dist'' fs"

text \<open>A computation that leaves the file system as it is and does not end the process,
  and one that changes it below \<^verbatim>\<open>dist\<close> only.\<close>

definition reads_only :: "'a io \<Rightarrow> bool" where
  "reads_only m \<longleftrightarrow> (\<forall>fs. \<exists>r out. m fs = (r, fs, out) \<and> (\<forall>code. r \<noteq> Inl (Exit code)))"

definition only_dist :: "'a io \<Rightarrow> bool" where
  "only_dist m \<longleftrightarrow>
     (\<forall>fs. \<exists>r fs' out. m fs = (r, fs', out) \<and> outside_dist fs' = outside_dist fs \<and>
        (\<forall>code. r \<noteq> Inl (Exit code)))"

text \<open>The statements of \<open>build\<close> after the entry page, and its first console line.\<close>

definition after_entry :: "host \<Rightarrow> string \<Rightarrow> string option \<Rightarrow> unit io" where
  "after_entry h elapsed originHTML =
     io_bind (origin_pages_step originHTML) (\<lambda>_.
     io_bind (blog_step h) (\<lambda>_.
     io_bind assets_step (\<lambda>_.
     io_bind cname_step (\<lambda>_.
     console_log (newline @ heavy_line @ heavy_line @ heavy_line @ '' Build complete in '' @
       elapsed @ ''s '' @ heavy_line @ heavy_line @ heavy_line @ newline)))))"

definition start_line :: line where
  "start_line = (Console_log, ''white_silence_black_ink '' @ em_dash @ '' build started'')"

subsection \<open>Replacing the first occurrence\<close>

text \<open>
  The specification's ``replaces the first occurrence of the token'': \<open>s'\<close> is \<open>s\<close> with
  its first occurrence of \<open>pat\<close> replaced by the text \<open>r\<close> itself, or \<open>s\<close> when \<open>pat\<close>
  does not occur. \<open>replace_verbatim\<close> computes it.
\<close>

definition occurs_at :: "string \<Rightarrow> string \<Rightarrow> nat \<Rightarrow> bool" where
  "occurs_at pat s i \<longleftrightarrow> take (length pat) (drop i s) = pat"

definition replaces_first :: "string \<Rightarrow> string \<Rightarrow> string \<Rightarrow> string \<Rightarrow> bool" where
  "replaces_first s pat r s' \<longleftrightarrow>
     (\<exists>leading trailing. s = leading @ pat @ trailing \<and> (\<forall>i<length leading. \<not> occurs_at pat s i) \<and>
        s' = leading @ r @ trailing) \<or>
     ((\<forall>i\<le>length s. \<not> occurs_at pat s i) \<and> s' = s)"

definition replace_verbatim :: "string \<Rightarrow> string \<Rightarrow> string \<Rightarrow> string" where
  "replace_verbatim s pat r =
     (case split_first pat s of None \<Rightarrow> s | Some (leading, trailing) \<Rightarrow> leading @ r @ trailing)"

text \<open>
  In its second argument \<^verbatim>\<open>replace\<close> expands the patterns \<^verbatim>\<open>$$\<close>, \<^verbatim>\<open>$&\<close>,
  \<^verbatim>\<open>$\<close> with a backquote and \<^verbatim>\<open>$'\<close>. \<open>has_pattern r\<close> holds when \<open>r\<close> contains one
  of them. \<open>replaces_token s pat r s'\<close>: the text \<open>s'\<close> is \<open>s\<close> with its first occurrence
  of \<open>pat\<close> replaced by some text, and by \<open>r\<close> itself when \<open>r\<close> contains no pattern
  (\<open>s'\<close> is \<open>s\<close> when \<open>pat\<close> does not occur).
\<close>

fun has_pattern :: "string \<Rightarrow> bool" where
  "has_pattern [] = False"
| "has_pattern [c] = False"
| "has_pattern (c # d # r) =
     (c = CHR ''$'' \<and> (d = CHR ''$'' \<or> d = CHR ''&'' \<or> d = CHR 0x60 \<or> d = CHR 0x27) \<or>
      has_pattern (d # r))"

definition replaces_token :: "string \<Rightarrow> string \<Rightarrow> string \<Rightarrow> string \<Rightarrow> bool" where
  "replaces_token s pat r s' \<longleftrightarrow>
     (\<exists>inserted. replaces_first s pat inserted s' \<and> (\<not> has_pattern r \<longrightarrow> inserted = r))"

text \<open>A computation that leaves \<^verbatim>\<open>dist/x\<close> as it is.\<close>

definition keeps :: "string \<Rightarrow> 'a io \<Rightarrow> bool" where
  "keeps x m \<longleftrightarrow>
     (\<forall>fs. \<exists>r fs' out. m fs = (r, fs', out) \<and> lookup fs' [''dist'', x] = lookup fs [''dist'', x])"

subsection \<open>The output tree\<close>

text \<open>
  The file system that has \<open>d\<close> as its directory \<^verbatim>\<open>dist\<close>; a path that does not lead
  into \<^verbatim>\<open>dist\<close>; a directory listing as a file system holds it, with no name twice.
\<close>

definition with_dist :: "dir \<Rightarrow> dir \<Rightarrow> dir" where
  "with_dist d fs = AList.update ''dist'' (Dir d) (AList.delete ''dist'' fs)"

definition outside :: "path \<Rightarrow> bool" where
  "outside p \<longleftrightarrow> (\<exists>a sp. p = a # sp \<and> a \<noteq> ''dist'')"

fun proper_entries :: "dir \<Rightarrow> bool" where
  "proper_entries [] = True"
| "proper_entries ((name, File bytes) # rest) = (name \<notin> fst ` set rest \<and> proper_entries rest)"
| "proper_entries ((name, Dir sub) # rest) =
     (name \<notin> fst ` set rest \<and> proper_entries sub \<and> proper_entries rest)"

text \<open>
  What a build that completes leaves in \<^verbatim>\<open>dist\<close>, read off the inputs: the entry
  template copied as \<^verbatim>\<open>index.html\<close>; for each of the templates \<^verbatim>\<open>ripple.html\<close>,
  \<^verbatim>\<open>clean.html\<close> and \<^verbatim>\<open>blog.html\<close> that is there, the page made from its text; a copy
  of \<^verbatim>\<open>assets\<close> and of \<^verbatim>\<open>CNAME\<close> when they are there. \<open>injected\<close> is the text of
  the blog page: the four replacements of \<open>injectData\<close>. The inputs are in order when the
  entry template is a file, no other template and not \<^verbatim>\<open>CNAME\<close> is a directory, and
  \<^verbatim>\<open>assets\<close>, if there, is a directory whose listings hold no name twice.
\<close>

fun page_entry :: "string \<Rightarrow> (string \<Rightarrow> string) \<Rightarrow> node option \<Rightarrow> dir" where
  "page_entry name render (Some (File bytes)) = [(name, File (render (toString_utf8 bytes)))]"
| "page_entry name render (Some (Dir sub)) = []"
| "page_entry name render None = []"

fun copied_entry :: "string \<Rightarrow> node option \<Rightarrow> dir" where
  "copied_entry name (Some n) = [(name, n)]"
| "copied_entry name None = []"

definition injected :: "host \<Rightarrow> json list \<Rightarrow> json \<Rightarrow> json \<Rightarrow> string \<Rightarrow> string \<Rightarrow> string" where
  "injected h posts unlinked about address html =
     replace
       (replace
         (replace
           (replace html POSTS_JSON (JSON_stringify h (JArr posts)))
           UNLINKED_JSON (JSON_stringify h unlinked))
         ABOUT_JSON (JSON_stringify h about))
       CONTACT_EMAIL address"

definition output_tree :: "dir \<Rightarrow> string option \<Rightarrow> (string \<Rightarrow> string) \<Rightarrow> dir" where
  "output_tree fs originHTML blog =
     copied_entry ''index.html'' (lookup fs [''templates'', ''entry.html'']) @
     page_entry ''ripple.html'' (\<lambda>html. injectOrigin html originHTML)
       (lookup fs [''templates'', ''ripple.html'']) @
     page_entry ''clean.html'' (\<lambda>html. injectOrigin html originHTML)
       (lookup fs [''templates'', ''clean.html'']) @
     page_entry ''blog.html'' blog (lookup fs [''templates'', ''blog.html'']) @
     copied_entry ''assets'' (lookup fs [''assets'']) @
     copied_entry ''CNAME'' (lookup fs [''CNAME''])"

fun is_file :: "node option \<Rightarrow> bool" where
  "is_file (Some (File bytes)) = True"
| "is_file other = False"

fun file_or_absent :: "node option \<Rightarrow> bool" where
  "file_or_absent (Some (Dir sub)) = False"
| "file_or_absent other = True"

fun tree_or_absent :: "node option \<Rightarrow> bool" where
  "tree_or_absent None = True"
| "tree_or_absent (Some (File bytes)) = False"
| "tree_or_absent (Some (Dir es)) = proper_entries es"

definition inputs_in_order :: "dir \<Rightarrow> bool" where
  "inputs_in_order fs \<longleftrightarrow>
     is_file (lookup fs [''templates'', ''entry.html'']) \<and>
     file_or_absent (lookup fs [''templates'', ''ripple.html'']) \<and>
     file_or_absent (lookup fs [''templates'', ''clean.html'']) \<and>
     file_or_absent (lookup fs [''templates'', ''blog.html'']) \<and>
     tree_or_absent (lookup fs [''assets'']) \<and>
     file_or_absent (lookup fs [''CNAME''])"

subsection \<open>A file system without one post\<close>

text \<open>The same file system without the entries named \<open>f\<close> of the posts directory.\<close>

definition without_post :: "string \<Rightarrow> dir \<Rightarrow> dir" where
  "without_post f fs =
     (case map_of fs ''content'' of
        Some (Dir c) \<Rightarrow>
          (case map_of c ''posts'' of
             Some (Dir ps) \<Rightarrow>
               AList.update ''content'' (Dir (AList.update ''posts'' (Dir (AList.delete f ps)) c)) fs
           | _ \<Rightarrow> fs)
      | _ \<Rightarrow> fs)"

text \<open>
  For the comparison of a run on a file system with the run on the file system without
  a post that does not load: \<open>A\<close> is the \<^verbatim>\<open>content\<close> directory, \<open>C\<close> the same without
  the post; a computation respects the removal when, started with \<open>C\<close> for \<open>A\<close>, it
  gives the same result and the same file system but for that change; a path is
  unaffected when it does not lead into the posts directory.
\<close>

definition post_removed :: "host \<Rightarrow> string \<Rightarrow> node \<Rightarrow> node \<Rightarrow> bool" where
  "post_removed h f A C \<longleftrightarrow>
     (\<exists>a ps m. A = Dir a \<and> map_of a ''posts'' = Some (Dir ps) \<and>
        try_post h (map_of ps f) = Inl m \<and>
        C = Dir (AList.update ''posts'' (Dir (AList.delete f ps)) a))"

definition sim :: "host \<Rightarrow> string \<Rightarrow> node \<Rightarrow> node \<Rightarrow> 'a io \<Rightarrow> bool" where
  "sim h f A C m \<longleftrightarrow>
     (post_removed h f A C \<longrightarrow>
       (\<forall>fs. map_of fs ''content'' = Some A \<longrightarrow>
          (\<exists>r fs' out out'. m fs = (r, fs', out) \<and>
             m (AList.update ''content'' C fs) = (r, AList.update ''content'' C fs', out') \<and>
             map_of fs' ''content'' = Some A)))"

fun unaffected :: "path \<Rightarrow> bool" where
  "unaffected [] = False"
| "unaffected [c] = (c \<noteq> ''content'')"
| "unaffected (c # x # cs) = (c \<noteq> ''content'' \<or> x \<noteq> ''posts'')"

section \<open>A host and file systems for the examples\<close>

text \<open>
  The host of the examples parses and prints the texts that occur in them as Node.js
  does (the message for a text that does not parse is the one of Node.js 18); no number
  occurs in them. Its collation orders letters alphabetically before it looks at their
  case, the lower case first, as the default collation of Node.js does for these
  strings: \<^verbatim>\<open>'a'.localeCompare('B')\<close> is negative although \<^verbatim>\<open>'a' > 'B'\<close> by code
  units.
\<close>

definition fold_case :: "char \<Rightarrow> char" where
  "fold_case c =
     (if CHR ''A'' \<le> c \<and> c \<le> CHR ''Z'' then
        (case c of Char b0 b1 b2 b3 b4 b5 b6 b7 \<Rightarrow> Char b0 b1 b2 b3 b4 True b6 b7)
      else c)"

definition example_collation :: "string \<Rightarrow> string \<Rightarrow> int" where
  "example_collation s t =
     (let ks = map fold_case s; kt = map fold_case t in
      if ks < kt then - 1 else if kt < ks then 1
      else if t < s then - 1 else if s < t then 1 else 0)"

definition example_parse :: "string \<Rightarrow> string + json" where
  \<open>example_parse s =
     (if s = ''null'' then Inr JNull
      else if s = ''{"date":"2024-01-01"}'' then Inr (JObj [(''date'', JStr ''2024-01-01'')])
      else if s = ''{"date":"2024-06-01"}'' then Inr (JObj [(''date'', JStr ''2024-06-01'')])
      else if s = ''{"date":"a"}'' then Inr (JObj [(''date'', JStr ''a'')])
      else if s = ''{"date":"B"}'' then Inr (JObj [(''date'', JStr ''B'')])
      else if s = ''{"title":"x"}'' then Inr (JObj [(''title'', JStr ''x'')])
      else if s = ''{"contact_email":"a@b.com"}'' then
        Inr (JObj [(''contact_email'', JStr ''a@b.com'')])
      else if s = ''{"contact_email":"a$$b@c.com"}'' then
        Inr (JObj [(''contact_email'', JStr ''a$$b@c.com'')])
      else if s = ''{"en":"/*__CONTACT_EMAIL__*/","es":""}'' then
        Inr (JObj [(''en'', JStr ''/*__CONTACT_EMAIL__*/''), (''es'', JStr [])])
      else if s = ''{"body":{"en":"<p>$$5</p>","es":"<p>$$5</p>"}}'' then
        Inr (JObj [(''body'', JObj [(''en'', JStr ''<p>$$5</p>''), (''es'', JStr ''<p>$$5</p>'')])])
      else Inl ''Unexpected token b in JSON at position 2'')\<close>

definition example_stringify :: "json \<Rightarrow> string" where
  \<open>example_stringify v =
     (if v = JArr [] then ''[]''
      else if v = JObj [(''en'', JStr []), (''es'', JStr [])] then
        ''{'' @ newline @ ''  "en": "",'' @ newline @ ''  "es": ""'' @ newline @ ''}''
      else if v = JObj [(''en'', JStr ''/*__CONTACT_EMAIL__*/''), (''es'', JStr [])] then
        ''{'' @ newline @ ''  "en": "/*__CONTACT_EMAIL__*/",'' @ newline @ ''  "es": ""'' @ newline @
        ''}''
      else if v = JArr [JObj [(''date'', JStr ''2024-01-01'')]] then
        ''['' @ newline @ ''  {'' @ newline @ ''    "date": "2024-01-01"'' @ newline @
        ''  }'' @ newline @ '']''
      else ''null'')\<close>

definition example_host :: host where
  "example_host =
     \<lparr>JSON_parse = example_parse, JSON_stringify = example_stringify,
      localeCompare = example_collation, Number_toString = (\<lambda>x. ''0'')\<rparr>"

definition example_templates :: node where
  "example_templates =
     Dir [(''entry.html'', File ''<h1>entry</h1>''),
          (''ripple.html'', File ''<main><!-- __ORIGIN_HTML__ --></main>''),
          (''clean.html'', File ''<div><!-- __ORIGIN_HTML__ --></div>''),
          (''blog.html'', File ''<a>/*__CONTACT_EMAIL__*/</a>'')]"

definition fs_templates_only :: dir where
  "fs_templates_only = [(''templates'', example_templates)]"

definition fs_no_entry :: dir where
  "fs_no_entry =
     [(''templates'', Dir [(''blog.html'', File ''<a>/*__CONTACT_EMAIL__*/</a>'')]),
      (''dist'', Dir [(''index.html'', File ''<h1>old</h1>'')])]"

definition posts_with_null :: dir where
  \<open>posts_with_null =
     [(''a.json'', File ''{"date":"2024-01-01"}''), (''n.json'', File ''null'')]\<close>

definition fs_null_post :: dir where
  "fs_null_post =
     [(''content'', Dir [(''posts'', Dir posts_with_null)]), (''templates'', example_templates)]"

definition two_posts :: dir where
  \<open>two_posts =
     [(''a.json'', File ''{"date":"2024-01-01"}''), (''b.json'', File ''{"date":"2024-06-01"}'')]\<close>

definition fs_two_posts :: dir where
  "fs_two_posts = [(''content'', Dir [(''posts'', Dir two_posts)])]"

definition letter_posts :: dir where
  \<open>letter_posts = [(''a.json'', File ''{"date":"a"}''), (''b.json'', File ''{"date":"B"}'')]\<close>

definition fs_letters :: dir where
  "fs_letters = [(''content'', Dir [(''posts'', Dir letter_posts)])]"

definition fs_origin_without_body :: dir where
  \<open>fs_origin_without_body =
     [(''content'', Dir [(''origin.json'', File ''{"title":"x"}'')]),
      (''templates'', example_templates)]\<close>


definition all_tokens :: string where
  "all_tokens =
     ''p=/*__POSTS_JSON__*/;u=/*__UNLINKED_JSON__*/;a=/*__ABOUT_JSON__*/;e=/*__CONTACT_EMAIL__*/''"

definition fs_site :: dir where
  \<open>fs_site = [(''content'', Dir [(''site.json'', File ''{"contact_email":"a@b.com"}'')])]\<close>

definition fs_site_dollar :: dir where
  \<open>fs_site_dollar = [(''content'', Dir [(''site.json'', File ''{"contact_email":"a$$b@c.com"}'')])]\<close>

definition fs_about_with_token :: dir where
  \<open>fs_about_with_token =
     [(''content'',
       Dir [(''about.json'', File ''{"en":"/*__CONTACT_EMAIL__*/","es":""}''),
            (''site.json'', File ''{"contact_email":"a@b.com"}'')])]\<close>

definition posts_with_broken :: dir where
  \<open>posts_with_broken =
     [(''a.json'', File ''{"date":"2024-01-01"}''), (''bad.json'', File ''{ broken'')]\<close>

definition example_assets :: dir where
  "example_assets =
     [(''style.css'', File ''body{}''), (''img'', Dir [(''logo.svg'', File ''<svg/>'')])]"

definition fs_broken_post :: dir where
  "fs_broken_post =
     [(''content'', Dir [(''posts'', Dir posts_with_broken)]),
      (''templates'',
       Dir [(''entry.html'', File ''<h1>entry</h1>''),
            (''ripple.html'', File ''<main><!-- __ORIGIN_HTML__ --></main>''),
            (''clean.html'', File ''<div><!-- __ORIGIN_HTML__ --></div>''),
            (''blog.html'', File ''<script>var posts = /*__POSTS_JSON__*/;</script>'')]),
      (''assets'', Dir example_assets),
      (''CNAME'', File ''example.org'')]"

section \<open>Facts about the model\<close>

subsection \<open>Computations\<close>

lemmas io_defs = io_bind_def io_return_def io_throw_def io_lift_def io_update_def
  existsSync_def readFileSync_def console_log_def console_warn_def console_error_def
  try_catch_def process_exit_def

lemma of_char_ascii: "(of_char c \<le> (0x7F::nat)) = (\<not> digit7 c)"
  by (cases c) simp

lemma toString_utf8_ascii [simp]: "list_all (\<lambda>c. \<not> digit7 c) s \<Longrightarrow> toString_utf8 s = s"
  unfolding toString_utf8_def
  by (induction s) (simp_all add: utf8_idle_def utf8_first_def of_char_ascii)

lemma readJSON_eq:
  "readJSON h p fallback fs =
     (Inr (case lookup fs p of
             Some (File bytes) \<Rightarrow>
               (case JSON_parse h (toString_utf8 bytes) of Inl m \<Rightarrow> fallback | Inr v \<Rightarrow> v)
           | _ \<Rightarrow> fallback), fs, [])"
  by (simp add: readJSON_def JSON_parse_io_def io_defs split: option.splits node.splits sum.splits)

subsection \<open>Sorting\<close>

lemma get_prop_error: "get_prop v k = Inl e \<Longrightarrow> e = TypeError"
  by (induction v k rule: get_prop.induct) simp_all

lemma comparefn_null_left: "posts_comparefn h JNull b = Inl TypeError"
  by (cases b) (simp_all add: posts_comparefn_def split: sum.splits)

lemma comparefn_null_right: "posts_comparefn h a JNull = Inl TypeError"
  by (simp add: posts_comparefn_def)

lemma first_error_error: "first_error rs = Inl e \<Longrightarrow> Inl e \<in> set rs"
  by (induction rs rule: first_error.induct) (auto split: sum.splits)

lemma to_string_error: "to_string h v = Inl e \<Longrightarrow> e = TypeError"
proof (induction h v arbitrary: e rule: to_string.induct)
  case (5 h xs)
  from 5(2) have "first_error (map (\<lambda>x. if x = JNull then Inr [] else to_string h x) xs) = Inl e"
    by (simp split: sum.splits)
  from first_error_error[OF this] obtain x where "x \<in> set xs" "x \<noteq> JNull" "to_string h x = Inl e"
    by (auto split: if_splits)
  then show ?case by (rule 5(1))
qed (simp_all split: if_splits)

lemma comparefn_error: "posts_comparefn h a b = Inl e \<Longrightarrow> e = TypeError"
  by (auto simp add: posts_comparefn_def split: sum.splits json.splits
      dest: get_prop_error to_string_error)

lemma extend_run_error:
  "throws_only c t \<Longrightarrow> extend_run c d p xs = Inl e \<Longrightarrow> e = t"
  by (induction xs arbitrary: p e) (auto simp add: throws_only_def split: sum.splits if_splits)

lemma count_and_make_run_error:
  assumes "throws_only c t" "count_and_make_run c xs = Inl e"
  shows "e = t"
proof -
  from assms(2) obtain element_high element_low rest where xs: "xs = element_high # element_low # rest"
    by (cases "(c, xs)" rule: count_and_make_run.cases) auto
  from assms(2) have "c element_low element_high = Inl e \<or>
      (\<exists>d. extend_run c d element_low rest = Inl e)"
    unfolding xs by (auto split: sum.splits)
  then show ?thesis
    using assms(1) extend_run_error[OF assms(1)] by (auto simp add: throws_only_def)
qed

lemma binary_search_error:
  "throws_only c t \<Longrightarrow> binary_search c p w l r = Inl e \<Longrightarrow> e = t"
proof (induction c p w l r rule: binary_search.induct)
  case (1 c p w l r)
  from 1(4) show ?case
    by (subst (asm) binary_search.simps)
       (auto split: if_splits sum.splits intro: 1(1,2)[OF _ _ _ 1(3)] simp add: 1(3)[unfolded throws_only_def])
qed

lemma binary_insertion_sort_error:
  "throws_only c t \<Longrightarrow> binary_insertion_sort c w xs = Inl e \<Longrightarrow> e = t"
  by (induction xs arbitrary: w) (auto split: sum.splits dest: binary_search_error)

lemma Array_sort_error:
  "throws_only c t \<Longrightarrow> Array_sort c xs = Inl e \<Longrightarrow> e = t"
  unfolding Array_sort_def
  by (auto split: if_splits sum.splits prod.splits
      dest: count_and_make_run_error binary_insertion_sort_error)

lemma extend_run_le: "extend_run c d p xs = Inr n \<Longrightarrow> n \<le> length xs"
  by (induction xs arbitrary: p n) (auto split: sum.splits if_splits)

lemma count_and_make_run_mset:
  "count_and_make_run c xs = Inr (first_run, rest) \<Longrightarrow> mset first_run + mset rest = mset xs"
proof (cases "(c, xs)" rule: count_and_make_run.cases)
  case (1 comparefn element_high element_low r)
  assume a: "count_and_make_run c xs = Inr (first_run, rest)"
  have "mset (take n r) + mset (drop n r) = mset r" for n
    by (metis append_take_drop_id mset_append)
  with a 1 show ?thesis by (auto split: sum.splits if_splits simp add: ac_simps)
qed auto

lemma binary_insertion_sort_mset:
  "binary_insertion_sort c w xs = Inr ys \<Longrightarrow> mset ys = mset w + mset xs"
proof (induction xs arbitrary: w)
  case Nil
  then show ?case by simp
next
  case (Cons p xs)
  from Cons.prems obtain l where l: "binary_search c p w 0 (length w) = Inr l"
    "binary_insertion_sort c (take l w @ p # drop l w) xs = Inr ys"
    by (auto split: sum.splits)
  have "mset (take l w) + mset (drop l w) = mset w"
    by (metis append_take_drop_id mset_append)
  with Cons.IH[OF l(2)] show ?case by (simp add: ac_simps)
qed

lemma Array_sort_mset: "Array_sort c xs = Inr ys \<Longrightarrow> mset ys = mset xs"
  unfolding Array_sort_def
  by (auto split: if_splits sum.splits prod.splits
      dest!: count_and_make_run_mset binary_insertion_sort_mset)

lemma Array_sort_length: "Array_sort c xs = Inr ys \<Longrightarrow> length ys = length xs"
  by (metis Array_sort_mset size_mset)


lemma extend_run_compared:
  "extend_run c d p xs = Inr n \<Longrightarrow> x \<in> set (take (Suc n) xs) \<Longrightarrow> compared c x"
proof (induction xs arbitrary: p n)
  case Nil
  then show ?case by simp
next
  case (Cons y ys)
  from Cons.prems(1) obtain order where o: "c y p = Inr order" by (auto split: sum.splits)
  then have y: "compared c y" unfolding compared_def by blast
  show ?case
  proof (cases "x = y")
    case True
    with y show ?thesis by simp
  next
    case False
    with Cons.prems obtain m where "extend_run c d y ys = Inr m" "n = Suc m" "x \<in> set (take (Suc m) ys)"
      using o by (auto split: sum.splits if_splits)
    then show ?thesis using Cons.IH by blast
  qed
qed

lemma count_and_make_run_Inr:
  assumes "count_and_make_run c (element_high # element_low # r) = Inr (first_run, rest)"
  obtains order n where "c element_low element_high = Inr order"
    "extend_run c (order < 0) element_low r = Inr n"
    "first_run = (if order < 0 then rev (element_high # element_low # take n r)
            else element_high # element_low # take n r)"
    "rest = drop n r"
proof (cases "c element_low element_high")
  case (Inl e)
  with assms show ?thesis by simp
next
  case (Inr order)
  show ?thesis
  proof (cases "extend_run c (order < 0) element_low r")
    case (Inl e)
    with Inr assms show ?thesis by simp
  next
    case n: (Inr n)
    with Inr assms show ?thesis by (intro that[of order n]) (simp_all split: if_splits)
  qed
qed

lemma count_and_make_run_compared:
  assumes "count_and_make_run c xs = Inr (first_run, rest)" "2 \<le> length xs" "x \<in> set first_run"
  shows "compared c x"
proof -
  from assms(2) obtain element_high element_low r where xs: "xs = element_high # element_low # r"
    by (cases "(c, xs)" rule: count_and_make_run.cases) auto
  from assms(1)[unfolded xs] obtain order n where o: "c element_low element_high = Inr order"
    "extend_run c (order < 0) element_low r = Inr n"
    "set first_run = set (element_high # element_low # take n r)"
    by (rule count_and_make_run_Inr) (auto split: if_splits)
  from o(1) have "compared c element_low" "compared c element_high"
    unfolding compared_def by blast+
  moreover have "compared c x" if "x \<in> set (take n r)"
  proof -
    from that have "x \<in> set (take (Suc n) r)" by (meson in_set_takeD le_SucI order_refl set_take_subset_set_take subsetD)
    with o(2) show ?thesis by (rule extend_run_compared)
  qed
  ultimately show ?thesis using assms(3) o(3) by auto
qed

lemma binary_search_compared:
  "binary_search c p w l r = Inr j \<Longrightarrow> l < r \<Longrightarrow> compared c p"
  by (subst (asm) binary_search.simps) (auto simp add: compared_def split: sum.splits)

lemma binary_insertion_sort_compared:
  "binary_insertion_sort c w xs = Inr ys \<Longrightarrow> w \<noteq> [] \<Longrightarrow> x \<in> set xs \<Longrightarrow> compared c x"
proof (induction xs arbitrary: w)
  case Nil
  then show ?case by simp
next
  case (Cons p xs)
  from Cons.prems(1) obtain l where l: "binary_search c p w 0 (length w) = Inr l"
    "binary_insertion_sort c (take l w @ p # drop l w) xs = Inr ys"
    by (auto split: sum.splits)
  from l(1) Cons.prems(2) have "compared c p" by (auto intro: binary_search_compared)
  moreover have "compared c x" if "x \<in> set xs"
    using Cons.IH[OF l(2) _ that] by simp
  ultimately show ?case using Cons.prems(3) by auto
qed

lemma Array_sort_compared:
  assumes "Array_sort c xs = Inr ys" "2 \<le> length xs" "x \<in> set xs"
  shows "compared c x"
proof -
  from assms(1,2) obtain first_run rest where r: "count_and_make_run c xs = Inr (first_run, rest)"
    "binary_insertion_sort c first_run rest = Inr ys"
    by (auto simp add: Array_sort_def split: sum.splits if_splits)
  from count_and_make_run_mset[OF r(1)] have "set xs = set first_run \<union> set rest"
    by (metis set_mset_mset set_mset_union)
  moreover have "first_run \<noteq> []" using r(1) assms(2)
    by (cases "(c, xs)" rule: count_and_make_run.cases) (auto split: sum.splits if_splits)
  ultimately show ?thesis
    using assms(3) count_and_make_run_compared[OF r(1) assms(2)]
      binary_insertion_sort_compared[OF r(2)] by blast
qed

lemma extend_run_returns:
  assumes "\<And>a b. a \<in> insert p (set xs) \<Longrightarrow> b \<in> insert p (set xs) \<Longrightarrow> \<exists>n. c a b = Inr n"
  shows "\<exists>n. extend_run c d p xs = Inr n"
  using assms
proof (induction xs arbitrary: p)
  case Nil
  then show ?case by simp
next
  case (Cons y ys)
  from Cons.prems[of y p] obtain order where o: "c y p = Inr order" by auto
  have "\<exists>n. extend_run c d y ys = Inr n"
    by (rule Cons.IH) (use Cons.prems in auto)
  with o show ?case by auto
qed

lemma binary_search_returns:
  assumes "\<And>b. b \<in> set w \<Longrightarrow> \<exists>n. c p b = Inr n" "r \<le> length w"
  shows "\<exists>j. binary_search c p w l r = Inr j \<and> j \<le> max l r"
  using assms(2)
proof (induction "r - l" arbitrary: l r rule: less_induct)
  case less
  show ?case
  proof (cases "l < r")
    case False
    then show ?thesis by (subst binary_search.simps) simp
  next
    case True
    let ?mid = "l + (r - l) div 2"
    have m: "l \<le> ?mid" "?mid < r" using True by auto
    with less.prems have "w ! ?mid \<in> set w" by simp
    from assms(1)[OF this] obtain order where o: "c p (w ! ?mid) = Inr order" by blast
    have 1: "\<exists>j. binary_search c p w l ?mid = Inr j \<and> j \<le> max l ?mid"
      by (rule less.hyps) (use m less.prems in auto)
    have 2: "\<exists>j. binary_search c p w (?mid + 1) r = Inr j \<and> j \<le> max (?mid + 1) r"
      by (rule less.hyps) (use m less.prems in auto)
    from 1 2 m o True show ?thesis
      by (subst binary_search.simps) auto
  qed
qed

lemma binary_insertion_sort_returns:
  assumes "\<And>a b. a \<in> set w \<union> set xs \<Longrightarrow> b \<in> set w \<union> set xs \<Longrightarrow> \<exists>n. c a b = Inr n"
  shows "\<exists>ys. binary_insertion_sort c w xs = Inr ys"
  using assms
proof (induction xs arbitrary: w)
  case Nil
  then show ?case by simp
next
  case (Cons p xs)
  have "\<exists>j. binary_search c p w 0 (length w) = Inr j \<and> j \<le> max 0 (length w)"
    by (rule binary_search_returns) (use Cons.prems in auto)
  then obtain j where j: "binary_search c p w 0 (length w) = Inr j" by blast
  have "\<exists>ys. binary_insertion_sort c (take j w @ p # drop j w) xs = Inr ys"
  proof (rule Cons.IH)
    fix a b assume "a \<in> set (take j w @ p # drop j w) \<union> set xs" "b \<in> set (take j w @ p # drop j w) \<union> set xs"
    then have "a \<in> set w \<union> set (p # xs)" "b \<in> set w \<union> set (p # xs)"
      by (auto dest: in_set_takeD in_set_dropD)
    then show "\<exists>n. c a b = Inr n" by (rule Cons.prems)
  qed
  with j show ?case by simp
qed

lemma Array_sort_returns:
  assumes "\<And>a b. a \<in> set xs \<Longrightarrow> b \<in> set xs \<Longrightarrow> \<exists>n. c a b = Inr n"
  shows "\<exists>ys. Array_sort c xs = Inr ys"
proof (cases "length xs < 2")
  case True
  then show ?thesis by (simp add: Array_sort_def)
next
  case False
  then obtain element_high element_low r where xs: "xs = element_high # element_low # r"
    by (cases "(c, xs)" rule: count_and_make_run.cases) auto
  from assms[of element_low element_high] obtain order where o: "c element_low element_high = Inr order"
    unfolding xs by auto
  have "\<exists>n. extend_run c (order < 0) element_low r = Inr n"
    by (rule extend_run_returns) (use assms xs in auto)
  then obtain n where n: "extend_run c (order < 0) element_low r = Inr n" by blast
  obtain first_run rest where r: "count_and_make_run c xs = Inr (first_run, rest)"
    unfolding xs using o n by simp
  from count_and_make_run_mset[OF r] have s: "set xs = set first_run \<union> set rest"
    by (metis set_mset_mset set_mset_union)
  have "\<exists>ys. binary_insertion_sort c first_run rest = Inr ys"
    by (rule binary_insertion_sort_returns) (use assms s in auto)
  with r False show ?thesis by (simp add: Array_sort_def)
qed


lemma orders_flip: "orders k \<Longrightarrow> (0 \<le> k a b) = (k b a \<le> 0)"
  unfolding orders_def by (metis not_le)

lemma orders_trans: "orders k \<Longrightarrow> 0 \<le> k b a \<Longrightarrow> 0 \<le> k d b \<Longrightarrow> 0 \<le> k d a"
  unfolding orders_def by (metis not_le)

lemma orders_less_le: "orders k \<Longrightarrow> k p m < 0 \<Longrightarrow> 0 \<le> k x m \<Longrightarrow> k p x < 0"
  unfolding orders_def by (metis not_le less_le_not_le)

lemma orders_strict_trans: "orders k \<Longrightarrow> k b a < 0 \<Longrightarrow> k d b < 0 \<Longrightarrow> k d a < 0"
  unfolding orders_def by (metis not_le less_le_not_le)

lemma successively_sorted_wrt:
  "(\<And>a b d. P a b \<Longrightarrow> P b d \<Longrightarrow> P a d) \<Longrightarrow> successively P xs \<Longrightarrow> sorted_wrt P xs"
proof (induction xs rule: induct_list012)
  case (3 x y zs)
  from 3(4) have xy: "P x y" and s: "successively P (y # zs)" by simp_all
  from 3(2)[OF 3(3) s] have sy: "sorted_wrt P (y # zs)" .
  then have "\<forall>z\<in>set zs. P y z" by simp
  with xy 3(3) have "\<forall>z\<in>set zs. P x z" by blast
  with xy sy show ?case by simp
qed simp_all

lemma extend_run_successively:
  assumes "\<And>a b. a \<in> insert p (set xs) \<Longrightarrow> b \<in> insert p (set xs) \<Longrightarrow> c a b = Inr (k a b)"
  shows "\<exists>n. extend_run c d p xs = Inr n \<and>
           successively (\<lambda>a b. if d then k b a < 0 else 0 \<le> k b a) (p # take n xs)"
  using assms
proof (induction xs arbitrary: p)
  case Nil
  then show ?case by simp
next
  case (Cons y ys)
  have o: "c y p = Inr (k y p)" using Cons.prems by simp
  have "\<exists>n. extend_run c d y ys = Inr n \<and>
           successively (\<lambda>a b. if d then k b a < 0 else 0 \<le> k b a) (y # take n ys)"
    by (rule Cons.IH) (use Cons.prems in auto)
  then obtain n where n: "extend_run c d y ys = Inr n"
    "successively (\<lambda>a b. if d then k b a < 0 else 0 \<le> k b a) (y # take n ys)" by blast
  show ?case
  proof (cases "if d then 0 \<le> k y p else k y p < 0")
    case True
    with o show ?thesis by simp
  next
    case False
    with o n have "extend_run c d p (y # ys) = Inr (Suc n)" by simp
    moreover from False n(2)
    have "successively (\<lambda>a b. if d then k b a < 0 else 0 \<le> k b a) (p # take (Suc n) (y # ys))"
      by (auto split: if_splits)
    ultimately show ?thesis by blast
  qed
qed

lemma count_and_make_run_sorted:
  assumes tot: "\<And>a b. a \<in> set xs \<Longrightarrow> b \<in> set xs \<Longrightarrow> c a b = Inr (k a b)"
    and k: "orders k"
  shows "\<exists>first_run rest. count_and_make_run c xs = Inr (first_run, rest) \<and>
           sorted_wrt (\<lambda>a b. 0 \<le> k b a) first_run"
proof (cases "\<exists>element_high element_low r. xs = element_high # element_low # r")
  case True
  then obtain element_high element_low r where xs: "xs = element_high # element_low # r" by blast
  let ?d = "k element_low element_high < 0"
  let ?Q = "\<lambda>a b. if ?d then k b a < 0 else 0 \<le> k b a"
  have o: "c element_low element_high = Inr (k element_low element_high)"
    using tot xs by simp
  have "\<exists>n. extend_run c ?d element_low r = Inr n \<and> successively ?Q (element_low # take n r)"
    by (rule extend_run_successively) (use tot xs in auto)
  then obtain n where n: "extend_run c ?d element_low r = Inr n"
    "successively ?Q (element_low # take n r)" by blast
  let ?first_run = "element_high # element_low # take n r"
  have s: "successively ?Q ?first_run" using n(2) by simp
  have r: "count_and_make_run c xs = Inr (if ?d then rev ?first_run else ?first_run, drop n r)"
    unfolding xs using o n(1) by simp
  show ?thesis
  proof (cases ?d)
    case descending: True
    with s have "successively (\<lambda>a b. k b a < 0) ?first_run" by simp
    then have "sorted_wrt (\<lambda>a b. k b a < 0) ?first_run"
      by (rule successively_sorted_wrt[rotated]) (rule orders_strict_trans[OF k])
    then have "sorted_wrt (\<lambda>a b. 0 \<le> k a b) ?first_run"
      by (rule sorted_wrt_mono_rel[rotated]) (use k in \<open>auto simp add: orders_def\<close>)
    then have "sorted_wrt (\<lambda>a b. 0 \<le> k b a) (rev ?first_run)"
      unfolding sorted_wrt_rev .
    with r descending show ?thesis by simp
  next
    case ascending: False
    with s have "successively (\<lambda>a b. 0 \<le> k b a) ?first_run" by simp
    then have "sorted_wrt (\<lambda>a b. 0 \<le> k b a) ?first_run"
      by (rule successively_sorted_wrt[rotated]) (rule orders_trans[OF k])
    with r ascending show ?thesis by simp
  qed
next
  case False
  then have "xs = [] \<or> (\<exists>x. xs = [x])" by (cases xs; cases "tl xs") auto
  then show ?thesis by auto
qed

lemma binary_search_sorted:
  assumes tot: "\<And>b. b \<in> set w \<Longrightarrow> c p b = Inr (k p b)"
    and k: "orders k"
    and s: "sorted_wrt (\<lambda>a b. 0 \<le> k b a) w"
  shows "l \<le> r \<Longrightarrow> r \<le> length w \<Longrightarrow>
     \<forall>i<l. 0 \<le> k p (w ! i) \<Longrightarrow>
     \<forall>i. r \<le> i \<longrightarrow> i < length w \<longrightarrow> k p (w ! i) < 0 \<Longrightarrow>
     \<exists>j. binary_search c p w l r = Inr j \<and> j \<le> length w \<and>
       (\<forall>i<j. 0 \<le> k p (w ! i)) \<and> (\<forall>i. j \<le> i \<longrightarrow> i < length w \<longrightarrow> k p (w ! i) < 0)"
proof (induction "r - l" arbitrary: l r rule: less_induct)
  case less
  show ?case
  proof (cases "l < r")
    case False
    with less.prems have "l = r" by simp
    with less.prems show ?thesis by (subst binary_search.simps) auto
  next
    case True
    let ?mid = "l + (r - l) div 2"
    have m: "l \<le> ?mid" "?mid < r" using True by auto
    with less.prems have mw: "?mid < length w" by simp
    then have o: "c p (w ! ?mid) = Inr (k p (w ! ?mid))" using tot by simp
    show ?thesis
    proof (cases "k p (w ! ?mid) < 0")
      case neg: True
      have "\<forall>i. ?mid \<le> i \<longrightarrow> i < length w \<longrightarrow> k p (w ! i) < 0"
      proof (intro allI impI)
        fix i assume i: "?mid \<le> i" "i < length w"
        show "k p (w ! i) < 0"
        proof (cases "i = ?mid")
          case True
          with neg show ?thesis by simp
        next
          case False
          with i have "?mid < i" by simp
          with s i(2) have "0 \<le> k (w ! i) (w ! ?mid)" by (simp add: sorted_wrt_iff_nth_less)
          with neg show ?thesis by (rule orders_less_le[OF k])
        qed
      qed
      then have "\<exists>j. binary_search c p w l ?mid = Inr j \<and> j \<le> length w \<and>
         (\<forall>i<j. 0 \<le> k p (w ! i)) \<and> (\<forall>i. j \<le> i \<longrightarrow> i < length w \<longrightarrow> k p (w ! i) < 0)"
        using m mw less.prems by (intro less.hyps) auto
      with True o neg show ?thesis by (subst binary_search.simps) simp
    next
      case nonneg: False
      have "\<forall>i<?mid + 1. 0 \<le> k p (w ! i)"
      proof (intro allI impI)
        fix i assume i: "i < ?mid + 1"
        show "0 \<le> k p (w ! i)"
        proof (cases "i = ?mid")
          case True
          with nonneg show ?thesis by simp
        next
          case False
          with i have "i < ?mid" by simp
          with s mw have "0 \<le> k (w ! ?mid) (w ! i)" by (simp add: sorted_wrt_iff_nth_less)
          moreover from nonneg have "0 \<le> k p (w ! ?mid)" by simp
          ultimately show ?thesis by (rule orders_trans[OF k])
        qed
      qed
      then have "\<exists>j. binary_search c p w (?mid + 1) r = Inr j \<and> j \<le> length w \<and>
         (\<forall>i<j. 0 \<le> k p (w ! i)) \<and> (\<forall>i. j \<le> i \<longrightarrow> i < length w \<longrightarrow> k p (w ! i) < 0)"
        using m mw less.prems by (intro less.hyps) auto
      with True o nonneg show ?thesis by (subst binary_search.simps) simp
    qed
  qed
qed

lemma insert_at_sorted:
  assumes k: "orders k"
    and s: "sorted_wrt (\<lambda>a b. 0 \<le> k b a) w"
    and j: "j \<le> length w"
    and before: "\<forall>i<j. 0 \<le> k p (w ! i)"
    and after: "\<forall>i. j \<le> i \<longrightarrow> i < length w \<longrightarrow> k p (w ! i) < 0"
  shows "sorted_wrt (\<lambda>a b. 0 \<le> k b a) (take j w @ p # drop j w)"
proof -
  from s have "sorted_wrt (\<lambda>a b. 0 \<le> k b a) (take j w @ drop j w)" by simp
  then have parts: "sorted_wrt (\<lambda>a b. 0 \<le> k b a) (take j w)" "sorted_wrt (\<lambda>a b. 0 \<le> k b a) (drop j w)"
    "\<forall>x\<in>set (take j w). \<forall>y\<in>set (drop j w). 0 \<le> k y x"
    unfolding sorted_wrt_append by blast+
  have b: "0 \<le> k p x" if "x \<in> set (take j w)" for x
  proof -
    from that obtain i where "i < length (take j w)" "take j w ! i = x"
      unfolding in_set_conv_nth by blast
    with before show ?thesis by auto
  qed
  have a: "0 \<le> k y p" if "y \<in> set (drop j w)" for y
  proof -
    from that obtain i where i: "i < length (drop j w)" "drop j w ! i = y"
      unfolding in_set_conv_nth by blast
    with after j have "k p y < 0" by auto
    with k show ?thesis unfolding orders_def by (metis less_imp_le)
  qed
  from parts a b show ?thesis by (auto simp add: sorted_wrt_append)
qed

lemma binary_insertion_sort_sorted:
  assumes k: "orders k"
  shows "(\<And>a b. a \<in> set w \<union> set xs \<Longrightarrow> b \<in> set w \<union> set xs \<Longrightarrow> c a b = Inr (k a b)) \<Longrightarrow>
     sorted_wrt (\<lambda>a b. 0 \<le> k b a) w \<Longrightarrow>
     \<exists>ys. binary_insertion_sort c w xs = Inr ys \<and> sorted_wrt (\<lambda>a b. 0 \<le> k b a) ys"
proof (induction xs arbitrary: w)
  case Nil
  then show ?case by simp
next
  case (Cons p xs)
  have "\<exists>j. binary_search c p w 0 (length w) = Inr j \<and> j \<le> length w \<and>
       (\<forall>i<j. 0 \<le> k p (w ! i)) \<and> (\<forall>i. j \<le> i \<longrightarrow> i < length w \<longrightarrow> k p (w ! i) < 0)"
    by (rule binary_search_sorted[OF _ k Cons.prems(2)]) (use Cons.prems(1) in auto)
  then obtain j where j: "binary_search c p w 0 (length w) = Inr j" "j \<le> length w"
    "\<forall>i<j. 0 \<le> k p (w ! i)" "\<forall>i. j \<le> i \<longrightarrow> i < length w \<longrightarrow> k p (w ! i) < 0" by blast
  have s: "sorted_wrt (\<lambda>a b. 0 \<le> k b a) (take j w @ p # drop j w)"
    using k Cons.prems(2) j(2,3,4) by (rule insert_at_sorted)
  have "\<exists>ys. binary_insertion_sort c (take j w @ p # drop j w) xs = Inr ys \<and>
      sorted_wrt (\<lambda>a b. 0 \<le> k b a) ys"
  proof (rule Cons.IH[OF _ s])
    fix a b assume "a \<in> set (take j w @ p # drop j w) \<union> set xs" "b \<in> set (take j w @ p # drop j w) \<union> set xs"
    then have "a \<in> set w \<union> set (p # xs)" "b \<in> set w \<union> set (p # xs)"
      by (auto dest: in_set_takeD in_set_dropD)
    then show "c a b = Inr (k a b)" by (rule Cons.prems(1))
  qed
  with j(1) show ?case by simp
qed

lemma Array_sort_sorted:
  assumes tot: "\<And>a b. a \<in> set xs \<Longrightarrow> b \<in> set xs \<Longrightarrow> c a b = Inr (k a b)"
    and k: "orders k"
  shows "\<exists>ys. Array_sort c xs = Inr ys \<and> sorted_wrt (\<lambda>a b. 0 \<le> k b a) ys"
proof (cases "length xs < 2")
  case True
  then have "xs = [] \<or> (\<exists>x. xs = [x])"
    by (cases xs) (auto simp add: less_Suc_eq_0_disj)
  then have "sorted_wrt (\<lambda>a b. 0 \<le> k b a) xs" by auto
  with True show ?thesis by (simp add: Array_sort_def)
next
  case False
  from count_and_make_run_sorted[of xs c k, OF tot k]
  obtain first_run rest where r: "count_and_make_run c xs = Inr (first_run, rest)"
    "sorted_wrt (\<lambda>a b. 0 \<le> k b a) first_run" by blast
  from count_and_make_run_mset[OF r(1)] have s: "set xs = set first_run \<union> set rest"
    by (metis set_mset_mset set_mset_union)
  have "\<exists>ys. binary_insertion_sort c first_run rest = Inr ys \<and> sorted_wrt (\<lambda>a b. 0 \<le> k b a) ys"
    by (rule binary_insertion_sort_sorted[OF k _ r(2)]) (use tot s in auto)
  with r(1) False show ?thesis by (simp add: Array_sort_def)
qed

lemma comparefn_throws: "throws_only (posts_comparefn h) TypeError"
  unfolding throws_only_def using comparefn_error by blast

lemma Array_sort_null:
  assumes "JNull \<in> set xs" "2 \<le> length xs"
  shows "Array_sort (posts_comparefn h) xs = Inl TypeError"
proof (cases "Array_sort (posts_comparefn h) xs")
  case (Inl e)
  with Array_sort_error[OF comparefn_throws] show ?thesis by blast
next
  case (Inr ys)
  from Array_sort_compared[OF Inr assms(2,1)] show ?thesis
    by (simp add: compared_def comparefn_null_left comparefn_null_right)
qed

lemma comparefn_text:
  "date_is_text a \<Longrightarrow> date_is_text b \<Longrightarrow>
   posts_comparefn h a b = Inr (localeCompare h (date_of b) (date_of a))"
  by (cases a; cases b)
     (auto simp add: posts_comparefn_def split: option.splits json.splits)

lemma sort_posts_returns:
  assumes "\<forall>v\<in>set xs. date_is_text v"
  shows "\<exists>ys. Array_sort (posts_comparefn h) xs = Inr ys \<and> mset ys = mset xs"
proof -
  have "\<exists>ys. Array_sort (posts_comparefn h) xs = Inr ys"
    by (rule Array_sort_returns) (use assms in \<open>simp add: comparefn_text\<close>)
  then show ?thesis using Array_sort_mset by blast
qed

lemma sort_posts_sorted:
  assumes cons: "consistent_collation (localeCompare h)"
    and dates: "\<forall>v\<in>set xs. date_is_text v"
  shows "\<exists>ys. Array_sort (posts_comparefn h) xs = Inr ys \<and> mset ys = mset xs \<and>
           sorted_wrt (\<lambda>a b. 0 \<le> localeCompare h (date_of a) (date_of b)) ys"
proof -
  let ?k = "\<lambda>a b. localeCompare h (date_of b) (date_of a)"
  have k: "orders ?k"
    using cons unfolding consistent_collation_def orders_def by blast
  have "\<exists>ys. Array_sort (posts_comparefn h) xs = Inr ys \<and> sorted_wrt (\<lambda>a b. 0 \<le> ?k b a) ys"
    by (rule Array_sort_sorted[OF _ k]) (use dates in \<open>simp add: comparefn_text\<close>)
  then show ?thesis using Array_sort_mset by blast
qed

lemma example_collation_consistent: "consistent_collation example_collation"
  unfolding consistent_collation_def example_collation_def Let_def
  by (auto split: if_splits)

subsection \<open>Loading the posts\<close>

lemma lookup_append:
  "lookup fs p = Some (Dir es) \<Longrightarrow> lookup fs (p @ [f]) = map_of es f"
proof (induction fs p rule: lookup.induct)
  case (1 es')
  then show ?case by (simp split: option.splits node.splits)
next
  case (2 es' c cs)
  then show ?case by (auto split: option.splits node.splits if_splits)
qed

lemma load_posts_eq:
  assumes "lookup fs d = Some (Dir es)"
  shows "load_posts h d names acc fs =
     (Inr (acc @ concat (map (\<lambda>f. case try_post h (map_of es f) of Inl m \<Rightarrow> [] | Inr v \<Rightarrow> [v]) names)),
      fs,
      concat (map (\<lambda>f. case try_post h (map_of es f) of Inl m \<Rightarrow> [post_warning f m] | Inr v \<Rightarrow> []) names))"
proof (induction names arbitrary: acc)
  case Nil
  then show ?case by (simp add: io_defs)
next
  case (Cons f rest)
  have l: "lookup fs (d @ [f]) = map_of es f" using assms by (rule lookup_append)
  show ?case
  proof (cases "map_of es f")
    case None
    with l Cons show ?thesis
      by (simp add: io_defs JSON_parse_io_def post_warning_def del: lookup.simps)
  next
    case (Some n)
    with l Cons show ?thesis
      by (cases n; cases "JSON_parse h (toString_utf8 (case n of File t \<Rightarrow> t | _ \<Rightarrow> []))")
         (simp_all add: io_defs JSON_parse_io_def post_warning_def del: lookup.simps)
  qed
qed

lemma readPosts_eq:
  assumes "lookup fs [''content'', ''posts''] = Some (Dir es)"
  shows "readPosts h fs =
     ((case Array_sort (posts_comparefn h) (parsed_posts h es) of
         Inl e \<Rightarrow> Inl (Throw e) | Inr posts \<Rightarrow> Inr posts),
      fs, post_warnings h es)"
  using assms load_posts_eq[OF assms, of h "post_names es" "[]"]
  by (simp add: readPosts_def Let_def readdirSync_def readdirSync_withFileTypes_def io_defs
       parsed_posts_def post_warnings_def post_names_def
       split: sum.splits del: lookup.simps)

subsection \<open>Computations that only read\<close>

lemma reads_onlyD2:
  "reads_only m \<Longrightarrow> \<exists>r out. m fs = (r, fs, out) \<and> (\<forall>code. r \<noteq> Inl (Exit code))"
  unfolding reads_only_def by blast

lemma reads_onlyD: "reads_only m \<Longrightarrow> m fs = (r, fs', out) \<Longrightarrow> fs' = fs"
  using reads_onlyD2[of m fs] by auto

lemma reads_only_return: "reads_only (io_return x)"
  by (simp add: reads_only_def io_defs)

lemma reads_only_lift: "reads_only (io_lift r)"
  by (simp add: reads_only_def io_defs split: sum.splits)

lemma reads_only_console:
  "reads_only (console_log s)" "reads_only (console_warn s)" "reads_only (console_error s)"
  by (simp_all add: reads_only_def io_defs)

lemma reads_only_existsSync: "reads_only (existsSync p)"
  by (simp add: reads_only_def io_defs del: lookup.simps)

lemma reads_only_readFileSync: "reads_only (readFileSync p)"
  by (simp add: reads_only_def io_defs del: lookup.simps split: option.splits node.splits)

lemma reads_only_readdir: "reads_only (readdirSync_withFileTypes p)"
  by (simp add: reads_only_def readdirSync_withFileTypes_def del: lookup.simps split: option.splits node.splits)

lemma reads_only_bind:
  assumes "reads_only m" "\<And>x. reads_only (k x)"
  shows "reads_only (io_bind m k)"
  unfolding reads_only_def
proof
  fix fs
  from reads_onlyD2[OF assms(1), of fs]
  obtain r out where m: "m fs = (r, fs, out)" "\<And>code. r \<noteq> Inl (Exit code)"
    by blast
  show "\<exists>r out. io_bind m k fs = (r, fs, out) \<and> (\<forall>code. r \<noteq> Inl (Exit code))"
  proof (cases r)
    case (Inl a)
    with m show ?thesis by (simp add: io_bind_def)
  next
    case (Inr x)
    from reads_onlyD2[OF assms(2), of x fs]
    obtain r2 out2 where "k x fs = (r2, fs, out2)" "\<And>code. r2 \<noteq> Inl (Exit code)"
      by blast
    with m Inr show ?thesis by (simp add: io_bind_def)
  qed
qed

lemma reads_only_try:
  assumes "reads_only m" "\<And>e. reads_only (k e)"
  shows "reads_only (try_catch m k)"
  unfolding reads_only_def
proof
  fix fs
  from reads_onlyD2[OF assms(1), of fs]
  obtain r out where m: "m fs = (r, fs, out)" "\<And>code. r \<noteq> Inl (Exit code)"
    by blast
  show "\<exists>r out. try_catch m k fs = (r, fs, out) \<and> (\<forall>code. r \<noteq> Inl (Exit code))"
  proof (cases r)
    case (Inr x)
    with m show ?thesis by (simp add: try_catch_def)
  next
    case (Inl a)
    with m(2) obtain e where a: "a = Throw e" by (cases a) auto
    from reads_onlyD2[OF assms(2), of e fs]
    obtain r2 out2 where "k e fs = (r2, fs, out2)" "\<And>code. r2 \<noteq> Inl (Exit code)"
      by blast
    with m Inl a show ?thesis by (simp add: try_catch_def)
  qed
qed

lemmas reads_only_intros = reads_only_return reads_only_lift reads_only_console
  reads_only_existsSync reads_only_readFileSync reads_only_readdir reads_only_bind reads_only_try

lemma reads_only_if: "reads_only a \<Longrightarrow> reads_only b \<Longrightarrow> reads_only (if c then a else b)"
  by simp

lemma reads_only_readJSON: "reads_only (readJSON h p fallback)"
  unfolding readJSON_def JSON_parse_io_def
  by (intro reads_only_intros reads_only_if)

lemma reads_only_load_posts: "reads_only (load_posts h d names posts)"
  by (induction names arbitrary: posts) (simp_all add: reads_only_intros JSON_parse_io_def)

lemma reads_only_readPosts: "reads_only (readPosts h)"
  unfolding readPosts_def Let_def readdirSync_def
  by (intro reads_only_intros reads_only_if reads_only_load_posts)

lemma reads_only_injectData: "reads_only (injectData h html)"
  unfolding injectData_def inject_all_def Let_def
  by (intro reads_only_intros reads_only_readPosts reads_only_readJSON)

lemma reads_only_buildOriginHTML: "reads_only (buildOriginHTML h)"
  unfolding buildOriginHTML_def
  by (intro reads_only_intros reads_only_if reads_only_readJSON)

lemma reads_only_origin_step: "reads_only (origin_step h)"
  unfolding origin_step_def
  by (intro reads_only_intros reads_only_if reads_only_buildOriginHTML)

lemma reads_only_only_dist: "reads_only m \<Longrightarrow> only_dist m"
  unfolding only_dist_def using reads_onlyD2[of m] by blast

subsection \<open>Computations that write below dist only\<close>

lemma only_distD:
  "only_dist m \<Longrightarrow> \<exists>r fs' out. m fs = (r, fs', out) \<and> outside_dist fs' = outside_dist fs \<and>
        (\<forall>code. r \<noteq> Inl (Exit code))"
  unfolding only_dist_def by blast

lemma only_dist_bind:
  assumes "only_dist m" "\<And>x. only_dist (k x)"
  shows "only_dist (io_bind m k)"
  unfolding only_dist_def
proof
  fix fs
  from only_distD[OF assms(1), of fs]
  obtain r fs' out where m: "m fs = (r, fs', out)" "outside_dist fs' = outside_dist fs"
    "\<And>code. r \<noteq> Inl (Exit code)" by blast
  show "\<exists>r fs' out. io_bind m k fs = (r, fs', out) \<and> outside_dist fs' = outside_dist fs \<and>
        (\<forall>code. r \<noteq> Inl (Exit code))"
  proof (cases r)
    case (Inl a)
    with m show ?thesis by (simp add: io_bind_def)
  next
    case (Inr x)
    from only_distD[OF assms(2), of x fs']
    obtain r2 fs2 out2 where "k x fs' = (r2, fs2, out2)" "outside_dist fs2 = outside_dist fs'"
      "\<And>code. r2 \<noteq> Inl (Exit code)" by blast
    with m Inr show ?thesis by (simp add: io_bind_def)
  qed
qed

lemma only_dist_if: "only_dist a \<Longrightarrow> only_dist b \<Longrightarrow> only_dist (if c then a else b)"
  by simp

lemma only_dist_update:
  assumes "\<And>fs fs'. f fs = Inr fs' \<Longrightarrow> outside_dist fs' = outside_dist fs"
  shows "only_dist (io_update f)"
  unfolding only_dist_def io_update_def using assms by (auto split: sum.splits)

lemma write_at_dist:
  "write_at (''dist'' # p) n fs = Inr fs' \<Longrightarrow> outside_dist fs' = outside_dist fs"
  by (cases p) (auto simp add: outside_dist_def delete_update_same split: option.splits node.splits sum.splits)

lemma mkdir_p_dist:
  "mkdir_p (''dist'' # p) fs = Inr fs' \<Longrightarrow> outside_dist fs' = outside_dist fs"
  by (auto simp add: outside_dist_def delete_update_same split: option.splits node.splits sum.splits)

lemma write_file_dist:
  "write_file (''dist'' # p) s fs = Inr fs' \<Longrightarrow> outside_dist fs' = outside_dist fs"
  unfolding write_file_def
  by (auto dest: write_at_dist split: option.splits node.splits simp del: lookup.simps write_at.simps)

lemma only_dist_writeFileSync: "only_dist (writeFileSync (''dist'' # p) s)"
  unfolding writeFileSync_def by (rule only_dist_update) (rule write_file_dist)

lemma only_dist_mkdirSync: "only_dist (mkdirSync (''dist'' # p))"
  unfolding mkdirSync_def by (rule only_dist_update) (rule mkdir_p_dist)

lemma only_dist_rmSync: "only_dist (rmSync [''dist''])"
  unfolding rmSync_def by (rule only_dist_update) (auto simp add: outside_dist_def delete_idem)

lemma only_dist_copyFileSync: "only_dist (copyFileSync src (''dist'' # p))"
  unfolding only_dist_def copyFileSync_def io_update_def
  by (auto dest: write_file_dist split: option.splits node.splits sum.splits simp del: lookup.simps)

lemma only_dist_return: "only_dist (io_return x)"
  by (intro reads_only_only_dist reads_only_intros)

lemma only_dist_console: "only_dist (console_log s)" "only_dist (console_warn s)"
  by (intro reads_only_only_dist reads_only_intros)+

lemma only_dist_existsSync: "only_dist (existsSync p)"
  by (intro reads_only_only_dist reads_only_intros)

lemma only_dist_readFileSync: "only_dist (readFileSync p)"
  by (intro reads_only_only_dist reads_only_intros)

lemma only_dist_readdir: "only_dist (readdirSync_withFileTypes p)"
  by (intro reads_only_only_dist reads_only_intros)

lemmas only_dist_intros = only_dist_bind only_dist_if only_dist_return only_dist_console
  only_dist_existsSync only_dist_readFileSync only_dist_readdir
  only_dist_writeFileSync only_dist_mkdirSync only_dist_rmSync only_dist_copyFileSync

lemma only_dist_ensureDir: "only_dist (ensureDir (''dist'' # p))"
  unfolding ensureDir_def by (intro only_dist_intros)

lemma only_dist_cleanDir: "only_dist (cleanDir DIST_DIR)"
  unfolding cleanDir_def DIST_DIR_def by (intro only_dist_intros)

lemma only_dist_copy_entries: "only_dist (copy_entries es src (''dist'' # p))"
proof (induction es src "''dist'' # p" arbitrary: p rule: copy_entries.induct)
  case (1 src)
  then show ?case by (simp add: only_dist_intros)
next
  case (2 name data rest src)
  then show ?case by (simp add: only_dist_intros)
next
  case (3 name sub rest src)
  then show ?case by (simp add: only_dist_intros only_dist_ensureDir)
qed

lemma only_dist_copyDirSync: "only_dist (copyDirSync src (''dist'' # p))"
  unfolding copyDirSync_def
  by (intro only_dist_intros only_dist_ensureDir only_dist_copy_entries)

lemma only_dist_origin_page: "only_dist (origin_page originHTML page)"
  unfolding origin_page_def Let_def DIST_DIR_def by (simp add: only_dist_intros)

lemma only_dist_for_each: "(\<And>x. only_dist (body x)) \<Longrightarrow> only_dist (for_each xs body)"
  by (induction xs) (simp_all add: only_dist_intros)

lemma only_dist_origin_pages_step: "only_dist (origin_pages_step originHTML)"
  unfolding origin_pages_step_def by (intro only_dist_for_each only_dist_origin_page)

lemma only_dist_blog_step: "only_dist (blog_step h)"
  unfolding blog_step_def Let_def DIST_DIR_def
  by (simp add: only_dist_intros reads_only_only_dist[OF reads_only_injectData])

lemma only_dist_assets_step: "only_dist assets_step"
  unfolding assets_step_def Let_def DIST_DIR_def
  by (simp add: only_dist_intros only_dist_copyDirSync)

lemma only_dist_cname_step: "only_dist cname_step"
  unfolding cname_step_def Let_def DIST_DIR_def
  by (simp add: only_dist_intros)

lemma only_dist_origin_step: "only_dist (origin_step h)"
  by (intro reads_only_only_dist reads_only_origin_step)

lemma only_dist_after_entry: "only_dist (after_entry h elapsed originHTML)"
  unfolding after_entry_def
  by (intro only_dist_intros only_dist_origin_pages_step only_dist_blog_step
      only_dist_assets_step only_dist_cname_step)

subsection \<open>The build, step by step\<close>

lemma cleanDir_eq: "cleanDir DIST_DIR fs = (Inr (), cleaned fs, [])"
proof (cases "map_of fs ''dist''")
  case None
  then have "''dist'' \<notin> fst ` set fs" by (simp add: map_of_eq_None_iff)
  then have "AList.delete ''dist'' fs = fs" by simp
  with None show ?thesis
    by (simp add: cleanDir_def DIST_DIR_def cleaned_def io_defs rmSync_def mkdirSync_def)
next
  case (Some n)
  then show ?thesis
    by (cases n)
       (simp_all add: cleanDir_def DIST_DIR_def cleaned_def io_defs rmSync_def mkdirSync_def
          AList.delete_conv')
qed

lemma outside_dist_lookup:
  "outside_dist fs' = outside_dist fs \<Longrightarrow> c \<noteq> ''dist'' \<Longrightarrow> lookup fs' (c # cs) = lookup fs (c # cs)"
proof -
  assume a: "outside_dist fs' = outside_dist fs" and c: "c \<noteq> ''dist''"
  have "map_of fs' c = map_of (AList.delete ''dist'' fs') c" using c by simp
  also have "\<dots> = map_of (AList.delete ''dist'' fs) c" using a by (simp add: outside_dist_def)
  also have "\<dots> = map_of fs c" using c by simp
  finally show ?thesis by simp
qed

lemma outside_dist_cleaned: "outside_dist (cleaned fs) = outside_dist fs"
  by (simp add: outside_dist_def cleaned_def delete_update_same delete_idem)

lemma cleaned_cong: "outside_dist a = outside_dist b \<Longrightarrow> cleaned a = cleaned b"
  by (simp add: outside_dist_def cleaned_def)

lemma lookup_cleaned: "c \<noteq> ''dist'' \<Longrightarrow> lookup (cleaned fs) (c # cs) = lookup fs (c # cs)"
  by (rule outside_dist_lookup[OF outside_dist_cleaned])

lemma lookup_cleaned_dist: "lookup (cleaned fs) (''dist'' # c # cs) = None"
  by (simp add: cleaned_def AList.update_conv')

lemma build_unfold:
  "build h elapsed =
     io_bind (console_log (''white_silence_black_ink '' @ em_dash @ '' build started'')) (\<lambda>_.
     io_bind (cleanDir DIST_DIR) (\<lambda>_.
     io_bind (origin_step h) (\<lambda>originHTML.
     io_bind entry_step (\<lambda>_. after_entry h elapsed originHTML))))"
  by (simp add: build_def after_entry_def)

lemma entry_step_eq:
  "entry_step fs =
    (case lookup fs [''templates'', ''entry.html''] of
       None \<Rightarrow> (Inl (Exit 1), fs,
         [(Console_error, ''  '' @ ballot_x @ '' templates/entry.html not found '' @ em_dash @ '' aborting'')])
     | Some (Dir sub) \<Rightarrow>
         (Inl (Throw (SystemError ''EISDIR: illegal operation on a directory, copyfile'')), fs, [])
     | Some (File s) \<Rightarrow>
         (case write_file [''dist'', ''index.html''] s fs of
            Inl e \<Rightarrow> (Inl (Throw e), fs, [])
          | Inr fs' \<Rightarrow> (Inr (), fs', [(Console_log, ''  '' @ check_mark @ '' index.html (entry)'')])))"
  by (simp add: entry_step_def Let_def DIST_DIR_def io_defs copyFileSync_def
      split: option.splits node.splits sum.splits del: lookup.simps)

lemma build_eq:
  "build h elapsed fs =
    (case origin_step h (cleaned fs) of
       (Inl a, fs1, out1) \<Rightarrow>
         (Inl a, fs1, (Console_log, ''white_silence_black_ink '' @ em_dash @ '' build started'') # out1)
     | (Inr originHTML, fs1, out1) \<Rightarrow>
         (case entry_step fs1 of
            (Inl a, fs2, out2) \<Rightarrow>
              (Inl a, fs2, (Console_log, ''white_silence_black_ink '' @ em_dash @ '' build started'') # out1 @ out2)
          | (Inr u, fs2, out2) \<Rightarrow>
              (case after_entry h elapsed originHTML fs2 of
                 (r, fs3, out3) \<Rightarrow>
                   (r, fs3, (Console_log, ''white_silence_black_ink '' @ em_dash @ '' build started'') # out1 @ out2 @ out3))))"
  by (simp add: build_unfold io_bind_def console_log_def cleanDir_eq split: prod.splits sum.splits)

lemma origin_step_cases:
  obtains (throws) e out where "origin_step h fs = (Inl (Throw e), fs, out)"
  | (returns) originHTML out where "origin_step h fs = (Inr originHTML, fs, out)"
proof -
  from reads_onlyD2[OF reads_only_origin_step, of h fs]
  obtain r out where r: "origin_step h fs = (r, fs, out)" "\<And>code. r \<noteq> Inl (Exit code)" by blast
  show thesis
  proof (cases r)
    case (Inl a)
    with r(2) obtain e where "a = Throw e" by (cases a) auto
    with r Inl show thesis by (auto intro: throws)
  next
    case (Inr x)
    with r show thesis by (auto intro: returns)
  qed
qed

lemma after_entry_cases:
  obtains r fs' out where "after_entry h t o1 fs = (r, fs', out)" "outside_dist fs' = outside_dist fs"
    "\<And>code. r \<noteq> Inl (Exit code)"
  using only_distD[OF only_dist_after_entry, of h t o1 fs] by blast

lemma entry_step_outside: "entry_step fs = (r, fs', out) \<Longrightarrow> outside_dist fs' = outside_dist fs"
  by (auto simp add: entry_step_eq split: option.splits node.splits sum.splits
      dest: write_file_dist simp del: lookup.simps)

lemma run_cases:
  obtains
    (origin_throws) e out where
      "origin_step h (cleaned fs) = (Inl (Throw e), cleaned fs, out)"
      "run h t fs = (Uncaught e, cleaned fs, start_line # out)"
  | (no_entry) originHTML out out2 where
      "origin_step h (cleaned fs) = (Inr originHTML, cleaned fs, out)"
      "lookup fs [''templates'', ''entry.html''] = None"
      "run h t fs = (Exited 1, cleaned fs, start_line # out @ out2)"
  | (entry_throws) originHTML out e where
      "origin_step h (cleaned fs) = (Inr originHTML, cleaned fs, out)"
      "lookup fs [''templates'', ''entry.html''] \<noteq> None"
      "run h t fs = (Uncaught e, cleaned fs, start_line # out)"
  | (entry_copied) originHTML out s fs2 out2 r3 fs3 out3 where
      "origin_step h (cleaned fs) = (Inr originHTML, cleaned fs, out)"
      "lookup fs [''templates'', ''entry.html''] = Some (File s)"
      "write_file [''dist'', ''index.html''] s (cleaned fs) = Inr fs2"
      "after_entry h t originHTML fs2 = (r3, fs3, out3)"
      "r3 = Inr () \<or> (\<exists>e. r3 = Inl (Throw e))"
      "outside_dist fs2 = outside_dist fs"
      "outside_dist fs3 = outside_dist fs"
      "run h t fs = (outcome_of r3, fs3, start_line # out @ out2 @ out3)"
proof (cases rule: origin_step_cases[of h "cleaned fs"])
  case (throws e out)
  then show ?thesis
    by (intro origin_throws[of e out]) (simp_all add: run_def build_eq start_line_def)
next
  case (returns originHTML out)
  have l: "lookup (cleaned fs) [''templates'', ''entry.html''] = lookup fs [''templates'', ''entry.html'']"
    by (rule lookup_cleaned) simp
  show ?thesis
  proof (cases "lookup fs [''templates'', ''entry.html'']")
    case None
    with returns l show ?thesis
      by (intro no_entry[of originHTML out])
         (simp_all add: run_def build_eq start_line_def entry_step_eq del: lookup.simps)
  next
    case (Some n)
    show ?thesis
    proof (cases n)
      case (Dir sub)
      with Some returns l show ?thesis
        by (intro entry_throws[of originHTML out])
           (simp_all add: run_def build_eq start_line_def entry_step_eq del: lookup.simps)
    next
      case (File s)
      show ?thesis
      proof (cases "write_file [''dist'', ''index.html''] s (cleaned fs)")
        case (Inl e)
        with File Some returns l show ?thesis
          by (intro entry_throws[of originHTML out])
             (simp_all add: run_def build_eq start_line_def entry_step_eq del: lookup.simps)
      next
        case (Inr fs2)
        obtain r3 fs3 out3 where a: "after_entry h t originHTML fs2 = (r3, fs3, out3)"
          "outside_dist fs3 = outside_dist fs2" "\<And>code. r3 \<noteq> Inl (Exit code)"
          by (rule after_entry_cases[of h t originHTML fs2]) blast
        have r3: "r3 = Inr () \<or> (\<exists>e. r3 = Inl (Throw e))"
        proof (cases r3)
          case (Inl b) with a(3) show ?thesis by (cases b) auto
        qed simp
        have o2: "outside_dist fs2 = outside_dist fs"
          using write_file_dist[OF Inr] by (simp add: outside_dist_cleaned)
        with a(2) have o3: "outside_dist fs3 = outside_dist fs" by simp
        show ?thesis
          using returns Some File Inr a(1) r3 o2 o3 l
          by (intro entry_copied[of originHTML out s fs2 r3 fs3 out3])
             (simp_all add: run_def build_eq start_line_def entry_step_eq del: lookup.simps)
      qed
    qed
  qed
qed

lemma run_outside_dist: "outside_dist (fst (snd (run h t fs))) = outside_dist fs"
  by (cases rule: run_cases[of h fs t]) (simp_all add: outside_dist_cleaned)

lemma exit_code_nonzero:
  "exit_code (fst (run h t fs)) \<noteq> 0 \<longleftrightarrow> fst (run h t fs) \<noteq> Completed"
  by (cases rule: run_cases[of h fs t]) auto

lemma buildOriginHTML_throws:
  assumes "lookup fs [''content'', ''origin.json''] = Some (File text)"
    and "JSON_parse h (toString_utf8 text) = Inr origin" and "truthy origin"
    and "get_prop (Some origin) ''body'' = Inr None \<or> get_prop (Some origin) ''body'' = Inr (Some JNull)"
  shows "buildOriginHTML h fs = (Inl (Throw TypeError), fs, [])"
  using assms
  by (auto simp add: buildOriginHTML_def readJSON_eq io_defs simp del: lookup.simps)

lemma injectData_throws:
  "readPosts h fs = (Inl a, fs', out) \<Longrightarrow> injectData h html fs = (Inl a, fs', out)"
  by (simp add: injectData_def io_bind_def)

lemma blog_step_throws:
  assumes "lookup fs [''templates'', ''blog.html''] = Some (File html)"
    and "readPosts h fs = (Inl a, fs, out)"
  shows "blog_step h fs = (Inl a, fs, out)"
  using assms injectData_throws[OF assms(2), of "toString_utf8 html"]
  by (simp add: blog_step_def Let_def io_defs del: lookup.simps)

lemma after_entry_blog_throws:
  assumes "\<And>fs'. outside_dist fs' = outside_dist fs \<Longrightarrow> \<exists>a out. blog_step h fs' = (Inl a, fs', out)"
  shows "\<exists>a. fst (after_entry h t o1 fs) = Inl a"
proof -
  from only_distD[OF only_dist_origin_pages_step, of o1 fs]
  obtain r fs' out where p: "origin_pages_step o1 fs = (r, fs', out)" "outside_dist fs' = outside_dist fs"
    by blast
  show ?thesis
  proof (cases r)
    case (Inl a)
    with p show ?thesis by (simp add: after_entry_def io_bind_def)
  next
    case (Inr u)
    from assms[OF p(2)] obtain a out' where "blog_step h fs' = (Inl a, fs', out')" by blast
    with p Inr show ?thesis by (simp add: after_entry_def io_bind_def)
  qed
qed

lemma after_entry_elapsed:
  "fst (after_entry h t2 o1 fs) = fst (after_entry h t1 o1 fs) \<and>
   fst (snd (after_entry h t2 o1 fs)) = fst (snd (after_entry h t1 o1 fs))"
  by (simp add: after_entry_def io_bind_def console_log_def split: prod.splits sum.splits)

lemma run_elapsed:
  "fst (run h t2 fs) = fst (run h t1 fs) \<and> fst (snd (run h t2 fs)) = fst (snd (run h t1 fs))"
proof (cases "origin_step h (cleaned fs)")
  case o: (fields r1 fs1 out1)
  show ?thesis
  proof (cases r1)
    case (Inl a)
    with o show ?thesis by (simp add: run_def build_eq)
  next
    case r1: (Inr originHTML)
    show ?thesis
    proof (cases "entry_step fs1")
      case e: (fields r2 fs2 out2)
      show ?thesis
      proof (cases r2)
        case (Inl a)
        with o r1 e show ?thesis by (simp add: run_def build_eq)
      next
        case (Inr u)
        with o r1 e after_entry_elapsed[of h t2 originHTML fs2 t1] show ?thesis
          by (auto simp add: run_def build_eq split: prod.splits)
      qed
    qed
  qed
qed

lemma run_cong: "outside_dist a = outside_dist b \<Longrightarrow> run h t a = run h t b"
  by (simp add: run_def build_eq cleaned_cong[of a b])

subsection \<open>Replacing\<close>

lemma occurs_at_0: "occurs_at pat s 0 \<longleftrightarrow> take (length pat) s = pat"
  by (simp add: occurs_at_def)

lemma occurs_at_Suc: "occurs_at pat (c # cs) (Suc i) \<longleftrightarrow> occurs_at pat cs i"
  by (simp add: occurs_at_def)

lemma split_first_Some:
  "split_first pat s = Some (leading, trailing) \<Longrightarrow>
     s = leading @ pat @ trailing \<and> (\<forall>i<length leading. \<not> occurs_at pat s i)"
proof (induction s arbitrary: leading)
  case Nil
  then show ?case by (simp split: if_splits)
next
  case (Cons c cs)
  show ?case
  proof (cases "take (length pat) (c # cs) = pat")
    case True
    with Cons.prems have "leading = []" "trailing = drop (length pat) (c # cs)" by simp_all
    with True show ?thesis by (metis append_Nil append_take_drop_id length_0_conv not_less_zero list.size(3))
  next
    case False
    with Cons.prems obtain f where f: "split_first pat cs = Some (f, trailing)" "leading = c # f"
      by (auto split: option.splits)
    from Cons.IH[OF f(1)] have ih: "cs = f @ pat @ trailing" "\<forall>i<length f. \<not> occurs_at pat cs i"
      by blast+
    have "\<not> occurs_at pat (c # cs) i" if "i < length leading" for i
    proof (cases i)
      case 0
      with False show ?thesis by (simp add: occurs_at_0)
    next
      case (Suc j)
      with that f(2) ih(2) show ?thesis by (simp add: occurs_at_Suc)
    qed
    with ih(1) f(2) show ?thesis by simp
  qed
qed

lemma split_first_None:
  "split_first pat s = None \<Longrightarrow> \<forall>i\<le>length s. \<not> occurs_at pat s i"
proof (induction s)
  case Nil
  then show ?case by (simp add: occurs_at_def split: if_splits)
next
  case (Cons c cs)
  from Cons.prems have n: "take (length pat) (c # cs) \<noteq> pat" "split_first pat cs = None"
    by (auto split: if_splits)
  have "\<not> occurs_at pat (c # cs) i" if "i \<le> length (c # cs)" for i
  proof (cases i)
    case 0
    with n(1) show ?thesis by (simp add: occurs_at_0)
  next
    case (Suc j)
    with that Cons.IH[OF n(2)] show ?thesis by (simp add: occurs_at_Suc)
  qed
  then show ?case by blast
qed

lemma occurs_at_append: "occurs_at pat (leading @ pat @ trailing) (length leading)"
  by (simp add: occurs_at_def)

lemma replaces_first_iff: "replaces_first s pat r s' \<longleftrightarrow> s' = replace_verbatim s pat r"
proof (cases "split_first pat s")
  case None
  note no = split_first_None[OF None]
  have "\<not> (\<exists>leading trailing. s = leading @ pat @ trailing)"
  proof
    assume "\<exists>leading trailing. s = leading @ pat @ trailing"
    then obtain leading trailing where s: "s = leading @ pat @ trailing" by blast
    then have "length leading \<le> length s" by simp
    with no have "\<not> occurs_at pat s (length leading)" by blast
    with s occurs_at_append[of pat leading trailing] show False by simp
  qed
  with no None show ?thesis by (auto simp add: replaces_first_def replace_verbatim_def)
next
  case (Some fb)
  obtain f b where fb: "fb = (f, b)" by (cases fb)
  from split_first_Some[OF Some[unfolded fb]]
  have s: "s = f @ pat @ b" and first: "\<forall>i<length f. \<not> occurs_at pat s i" by blast+
  have occ: "occurs_at pat s (length f)" using s occurs_at_append[of pat f b] by simp
  have uniq: "leading = f \<and> trailing = b"
    if "s = leading @ pat @ trailing" "\<forall>i<length leading. \<not> occurs_at pat s i" for leading trailing
  proof -
    have o2: "occurs_at pat s (length leading)" using that(1) occurs_at_append[of pat leading trailing] by simp
    have "length leading = length f"
    proof (rule ccontr)
      assume "length leading \<noteq> length f"
      then consider "length leading < length f" | "length f < length leading" by linarith
      then show False using first o2 that(2) occ by cases auto
    qed
    with s that(1) show ?thesis by (metis append_eq_append_conv same_append_eq)
  qed
  have "length f \<le> length s" using s by simp
  with occ have not_absent: "\<not> (\<forall>i\<le>length s. \<not> occurs_at pat s i)" by blast
  show ?thesis
  proof
    assume "replaces_first s pat r s'"
    with not_absent obtain leading trailing where
      "s = leading @ pat @ trailing" "\<forall>i<length leading. \<not> occurs_at pat s i" "s' = leading @ r @ trailing"
      by (auto simp add: replaces_first_def)
    with uniq[of leading trailing] show "s' = replace_verbatim s pat r"
      using Some fb by (simp add: replace_verbatim_def)
  next
    assume "s' = replace_verbatim s pat r"
    with Some fb have "s' = f @ r @ b" by (simp add: replace_verbatim_def)
    with s first show "replaces_first s pat r s'" unfolding replaces_first_def by blast
  qed
qed

lemma get_substitution_plain:
  "\<not> has_pattern r \<Longrightarrow> get_substitution matched leading trailing r = r"
  by (induction matched leading trailing r rule: get_substitution.induct) auto

lemma replace_plain:
  "\<not> has_pattern r \<Longrightarrow> replace s pat r = replace_verbatim s pat r"
  by (simp add: replace_def replace_verbatim_def get_substitution_plain split: option.splits)

lemma replace_replaces_first:
  "\<not> has_pattern r \<Longrightarrow> replaces_first s pat r (replace s pat r)"
  by (simp add: replaces_first_iff replace_plain)

lemma replace_replaces_token: "replaces_token s pat r (replace s pat r)"
proof -
  let ?inserted = "case split_first pat s of
      None \<Rightarrow> r | Some (leading, trailing) \<Rightarrow> get_substitution pat leading trailing r"
  have "replaces_first s pat ?inserted (replace s pat r)"
    by (simp add: replaces_first_iff replace_def replace_verbatim_def split: option.splits)
  moreover have "?inserted = r" if "\<not> has_pattern r"
    using that by (simp add: get_substitution_plain split: option.splits)
  ultimately show ?thesis unfolding replaces_token_def by blast
qed

lemma no_dollar_no_pattern: "CHR ''$'' \<notin> set r \<Longrightarrow> \<not> has_pattern r"
  by (induction r rule: has_pattern.induct) auto

subsection \<open>Computations that leave a page of dist alone\<close>

lemma keepsD:
  "keeps x m \<Longrightarrow> \<exists>r fs' out. m fs = (r, fs', out) \<and> lookup fs' [''dist'', x] = lookup fs [''dist'', x]"
  unfolding keeps_def by blast

lemma reads_only_keeps: "reads_only m \<Longrightarrow> keeps x m"
  unfolding keeps_def using reads_onlyD2[of m] by blast

lemma keeps_bind:
  assumes "keeps x m" "\<And>y. keeps x (k y)"
  shows "keeps x (io_bind m k)"
  unfolding keeps_def
proof
  fix fs
  from keepsD[OF assms(1), of fs]
  obtain r fs' out where m: "m fs = (r, fs', out)" "lookup fs' [''dist'', x] = lookup fs [''dist'', x]"
    by blast
  show "\<exists>r fs' out. io_bind m k fs = (r, fs', out) \<and> lookup fs' [''dist'', x] = lookup fs [''dist'', x]"
  proof (cases r)
    case (Inl a)
    with m show ?thesis by (simp add: io_bind_def del: lookup.simps)
  next
    case (Inr y)
    from keepsD[OF assms(2), of y fs']
    obtain r2 fs2 out2 where "k y fs' = (r2, fs2, out2)"
      "lookup fs2 [''dist'', x] = lookup fs' [''dist'', x]" by blast
    with m Inr show ?thesis by (simp add: io_bind_def del: lookup.simps)
  qed
qed

lemma keeps_if: "keeps x a \<Longrightarrow> keeps x b \<Longrightarrow> keeps x (if c then a else b)"
  by simp

lemma write_at_other:
  "write_at (y # ps) n sub = Inr sub' \<Longrightarrow> x \<noteq> y \<Longrightarrow> map_of sub' x = map_of sub x"
  by (cases ps) (auto simp add: AList.update_conv' split: option.splits node.splits sum.splits)

lemma mkdir_p_other:
  "mkdir_p (y # ps) sub = Inr sub' \<Longrightarrow> x \<noteq> y \<Longrightarrow> map_of sub' x = map_of sub x"
  by (auto simp add: AList.update_conv' split: option.splits node.splits sum.splits)

lemma write_at_keeps:
  assumes "write_at (''dist'' # y # ps) n fs = Inr fs'" "x \<noteq> y"
  shows "lookup fs' [''dist'', x] = lookup fs [''dist'', x]"
proof -
  from assms(1) obtain sub sub' where s: "map_of fs ''dist'' = Some (Dir sub)"
    "write_at (y # ps) n sub = Inr sub'" "fs' = AList.update ''dist'' (Dir sub') fs"
    by (auto split: option.splits node.splits sum.splits)
  from write_at_other[OF s(2) assms(2)] have "map_of sub' x = map_of sub x" .
  with s(1,3) show ?thesis by (simp add: AList.update_conv')
qed

lemma mkdir_p_keeps:
  assumes "mkdir_p (''dist'' # y # ps) fs = Inr fs'" "x \<noteq> y"
  shows "lookup fs' [''dist'', x] = lookup fs [''dist'', x]"
proof (cases "map_of fs ''dist''")
  case None
  with assms(1) obtain sub' where s: "mkdir_p (y # ps) [] = Inr sub'"
    "fs' = AList.update ''dist'' (Dir sub') fs"
    by (auto split: sum.splits)
  from mkdir_p_other[OF s(1) assms(2)] have "map_of sub' x = None" by simp
  with s(2) None show ?thesis by (simp add: AList.update_conv')
next
  case (Some n)
  with assms(1) obtain sub sub' where s: "n = Dir sub" "mkdir_p (y # ps) sub = Inr sub'"
    "fs' = AList.update ''dist'' (Dir sub') fs"
    by (cases n) (auto split: sum.splits)
  from mkdir_p_other[OF s(2) assms(2)] have "map_of sub' x = map_of sub x" .
  with s(1,3) Some show ?thesis by (simp add: AList.update_conv')
qed

lemma keeps_update:
  assumes "\<And>fs fs'. f fs = Inr fs' \<Longrightarrow> lookup fs' [''dist'', x] = lookup fs [''dist'', x]"
  shows "keeps x (io_update f)"
  unfolding keeps_def io_update_def using assms by (auto split: sum.splits simp del: lookup.simps)

lemma write_file_keeps:
  "write_file (''dist'' # y # ps) s fs = Inr fs' \<Longrightarrow> x \<noteq> y \<Longrightarrow>
   lookup fs' [''dist'', x] = lookup fs [''dist'', x]"
  unfolding write_file_def
  by (auto dest: write_at_keeps split: option.splits node.splits simp del: lookup.simps write_at.simps)

lemma keeps_writeFileSync: "x \<noteq> y \<Longrightarrow> keeps x (writeFileSync (''dist'' # y # ps) s)"
  unfolding writeFileSync_def by (rule keeps_update) (rule write_file_keeps)

lemma keeps_mkdirSync: "x \<noteq> y \<Longrightarrow> keeps x (mkdirSync (''dist'' # y # ps))"
  unfolding mkdirSync_def by (rule keeps_update) (rule mkdir_p_keeps)

lemma keeps_copyFileSync: "x \<noteq> y \<Longrightarrow> keeps x (copyFileSync src (''dist'' # y # ps))"
  unfolding keeps_def copyFileSync_def io_update_def
  by (auto dest: write_file_keeps split: option.splits node.splits sum.splits simp del: lookup.simps)

lemma keeps_return: "keeps x (io_return v)"
  by (intro reads_only_keeps reads_only_intros)

lemma keeps_console: "keeps x (console_log s)" "keeps x (console_warn s)"
  by (intro reads_only_keeps reads_only_intros)+

lemma keeps_existsSync: "keeps x (existsSync p)"
  by (intro reads_only_keeps reads_only_intros)

lemma keeps_readFileSync: "keeps x (readFileSync p)"
  by (intro reads_only_keeps reads_only_intros)

lemma keeps_readdir: "keeps x (readdirSync_withFileTypes p)"
  by (intro reads_only_keeps reads_only_intros)

lemmas keeps_intros = keeps_bind keeps_if keeps_return keeps_console keeps_existsSync
  keeps_readFileSync keeps_readdir keeps_writeFileSync keeps_mkdirSync keeps_copyFileSync




lemma keeps_origin_page: "x \<noteq> page \<Longrightarrow> keeps x (origin_page originHTML page)"
  unfolding origin_page_def Let_def DIST_DIR_def by (simp add: keeps_intros)




subsection \<open>The origin pages without origin.json\<close>



lemma buildOriginHTML_absent:
  "lookup fs [''content'', ''origin.json''] = None \<Longrightarrow> buildOriginHTML h fs = (Inr None, fs, [])"
  by (simp add: buildOriginHTML_def readJSON_eq io_defs del: lookup.simps)



subsection \<open>Removing a post that does not load\<close>

lemma simI:
  assumes "\<And>fs. post_removed h f A C \<Longrightarrow> map_of fs ''content'' = Some A \<Longrightarrow>
     \<exists>r fs' out out'. m fs = (r, fs', out) \<and>
             m (AList.update ''content'' C fs) = (r, AList.update ''content'' C fs', out') \<and>
             map_of fs' ''content'' = Some A"
  shows "sim h f A C m"
  unfolding sim_def using assms by blast

lemma simD:
  "sim h f A C m \<Longrightarrow> post_removed h f A C \<Longrightarrow> map_of fs ''content'' = Some A \<Longrightarrow>
     \<exists>r fs' out out'. m fs = (r, fs', out) \<and>
             m (AList.update ''content'' C fs) = (r, AList.update ''content'' C fs', out') \<and>
             map_of fs' ''content'' = Some A"
  unfolding sim_def by blast

lemma sim_bind:
  assumes "sim h f A C m" "\<And>x. sim h f A C (k x)"
  shows "sim h f A C (io_bind m k)"
proof (rule simI)
  fix fs assume pr: "post_removed h f A C" and c: "map_of fs ''content'' = Some A"
  from simD[OF assms(1) pr c]
  obtain r fs' out out' where m: "m fs = (r, fs', out)"
    "m (AList.update ''content'' C fs) = (r, AList.update ''content'' C fs', out')"
    "map_of fs' ''content'' = Some A" by blast
  show "\<exists>r fs' out out'. io_bind m k fs = (r, fs', out) \<and>
             io_bind m k (AList.update ''content'' C fs) = (r, AList.update ''content'' C fs', out') \<and>
             map_of fs' ''content'' = Some A"
  proof (cases r)
    case (Inl a)
    with m show ?thesis by (simp add: io_bind_def)
  next
    case (Inr x)
    from simD[OF assms(2) pr m(3), of x]
    obtain r2 fs2 out2 out2' where "k x fs' = (r2, fs2, out2)"
      "k x (AList.update ''content'' C fs') = (r2, AList.update ''content'' C fs2, out2')"
      "map_of fs2 ''content'' = Some A" by blast
    with m Inr show ?thesis by (simp add: io_bind_def)
  qed
qed

lemma sim_if: "sim h f A C a \<Longrightarrow> sim h f A C b \<Longrightarrow> sim h f A C (if c then a else b)"
  by simp

lemma sim_const:
  assumes "\<And>fs. m fs = (r, fs, out)"
  shows "sim h f A C m"
  by (rule simI) (simp add: assms)

lemma sim_return: "sim h f A C (io_return x)"
  by (rule sim_const) (simp add: io_defs)

lemma sim_lift: "sim h f A C (io_lift r)"
  by (cases r) (auto intro!: sim_const simp add: io_defs)

lemma sim_console:
  "sim h f A C (console_log s)" "sim h f A C (console_warn s)" "sim h f A C (console_error s)"
  by (rule sim_const, simp add: io_defs)+

lemma sim_process_exit: "sim h f A C (process_exit n)"
  by (rule sim_const) (simp add: io_defs)

lemma lookup_unaffected:
  assumes "post_removed h f A C" "map_of fs ''content'' = Some A" "unaffected p"
  shows "lookup (AList.update ''content'' C fs) p = lookup fs p"
proof -
  from assms(1) obtain a ps where a: "A = Dir a" "map_of a ''posts'' = Some (Dir ps)"
    "C = Dir (AList.update ''posts'' (Dir (AList.delete f ps)) a)"
    unfolding post_removed_def by blast
  show ?thesis
  proof (cases p rule: unaffected.cases)
    case 1
    with assms(3) show ?thesis by simp
  next
    case (2 c)
    with assms(3) show ?thesis by (simp add: AList.update_conv')
  next
    case (3 c x cs)
    show ?thesis
    proof (cases "c = ''content''")
      case False
      with 3 show ?thesis by (simp add: AList.update_conv')
    next
      case True
      with 3 assms(3) have "x \<noteq> ''posts''" by simp
      with True 3 a assms(2) show ?thesis by (simp add: AList.update_conv')
    qed
  qed
qed

lemma sim_existsSync: "unaffected p \<Longrightarrow> sim h f A C (existsSync p)"
  by (rule simI) (simp add: existsSync_def lookup_unaffected del: lookup.simps)

lemma sim_readFileSync: "unaffected p \<Longrightarrow> sim h f A C (readFileSync p)"
  by (rule simI)
     (simp add: readFileSync_def lookup_unaffected del: lookup.simps split: option.splits node.splits)

lemma sim_readdir: "unaffected p \<Longrightarrow> sim h f A C (readdirSync_withFileTypes p)"
  by (rule simI)
     (simp add: readdirSync_withFileTypes_def lookup_unaffected del: lookup.simps
        split: option.splits node.splits)

lemma sim_readJSON: "unaffected p \<Longrightarrow> sim h f A C (readJSON h p fallback)"
  by (rule simI) (simp add: readJSON_eq lookup_unaffected del: lookup.simps)

lemma update_commute:
  "k \<noteq> k' \<Longrightarrow> k \<in> fst ` set al \<Longrightarrow>
   AList.update k' v' (AList.update k v al) = AList.update k v (AList.update k' v' al)"
  by (induction al) auto

lemma content_present: "map_of fs ''content'' = Some A \<Longrightarrow> ''content'' \<in> fst ` set fs"
  using map_of_eq_None_iff[of fs "''content''"] by auto

lemma update_dist_content:
  "map_of fs ''content'' = Some A \<Longrightarrow>
   AList.update ''dist'' n (AList.update ''content'' C fs) =
   AList.update ''content'' C (AList.update ''dist'' n fs)"
  by (rule update_commute) (simp_all add: content_present)

lemma sim_update:
  assumes "\<And>fs. map_of fs ''content'' = Some A \<Longrightarrow>
     (case g fs of
        Inl e \<Rightarrow> g (AList.update ''content'' C fs) = Inl e
      | Inr fs' \<Rightarrow> g (AList.update ''content'' C fs) = Inr (AList.update ''content'' C fs') \<and>
          map_of fs' ''content'' = Some A)"
  shows "sim h f A C (io_update g)"
proof (rule simI)
  fix fs assume "map_of fs ''content'' = Some A"
  from assms[OF this] this
  show "\<exists>r fs' out out'. io_update g fs = (r, fs', out) \<and>
             io_update g (AList.update ''content'' C fs) = (r, AList.update ''content'' C fs', out') \<and>
             map_of fs' ''content'' = Some A"
    by (cases "g fs") (simp_all add: io_update_def)
qed

lemma write_at_dist_commute:
  assumes "map_of fs ''content'' = Some A"
  shows "case write_at (''dist'' # p) n fs of
        Inl e \<Rightarrow> write_at (''dist'' # p) n (AList.update ''content'' C fs) = Inl e
      | Inr fs' \<Rightarrow> write_at (''dist'' # p) n (AList.update ''content'' C fs) =
            Inr (AList.update ''content'' C fs') \<and> map_of fs' ''content'' = Some A"
  using assms update_dist_content[OF assms]
  by (cases p) (auto simp add: AList.update_conv' split: option.splits node.splits sum.splits)

lemma mkdir_p_dist_commute:
  assumes "map_of fs ''content'' = Some A"
  shows "case mkdir_p (''dist'' # p) fs of
        Inl e \<Rightarrow> mkdir_p (''dist'' # p) (AList.update ''content'' C fs) = Inl e
      | Inr fs' \<Rightarrow> mkdir_p (''dist'' # p) (AList.update ''content'' C fs) =
            Inr (AList.update ''content'' C fs') \<and> map_of fs' ''content'' = Some A"
  using assms update_dist_content[OF assms]
  by (auto simp add: AList.update_conv' split: option.splits node.splits sum.splits)

lemma lookup_dist_content:
  "lookup (AList.update ''content'' C fs) (''dist'' # p) = lookup fs (''dist'' # p)"
  by (simp add: AList.update_conv')

lemma write_file_dist_commute:
  assumes "map_of fs ''content'' = Some A"
  shows "case write_file (''dist'' # p) s fs of
        Inl e \<Rightarrow> write_file (''dist'' # p) s (AList.update ''content'' C fs) = Inl e
      | Inr fs' \<Rightarrow> write_file (''dist'' # p) s (AList.update ''content'' C fs) =
            Inr (AList.update ''content'' C fs') \<and> map_of fs' ''content'' = Some A"
proof -
  have l: "lookup (AList.update ''content'' C fs) (''dist'' # p) = lookup fs (''dist'' # p)"
    by (rule lookup_dist_content)
  show ?thesis
  proof (cases "\<exists>sub. lookup fs (''dist'' # p) = Some (Dir sub)")
    case True
    then show ?thesis unfolding write_file_def l by auto
  next
    case False
    then have "write_file (''dist'' # p) s fs = write_at (''dist'' # p) (File s) fs"
      "write_file (''dist'' # p) s (AList.update ''content'' C fs) =
         write_at (''dist'' # p) (File s) (AList.update ''content'' C fs)"
      unfolding write_file_def l by (auto split: option.splits node.splits)
    with write_at_dist_commute[OF assms, of p "File s" C] show ?thesis
      by (simp split: sum.splits)
  qed
qed

lemma sim_writeFileSync: "sim h f A C (writeFileSync (''dist'' # p) s)"
  unfolding writeFileSync_def by (rule sim_update) (rule write_file_dist_commute)

lemma sim_mkdirSync: "sim h f A C (mkdirSync (''dist'' # p))"
  unfolding mkdirSync_def by (rule sim_update) (rule mkdir_p_dist_commute)

lemma sim_rmSync: "sim h f A C (rmSync [''dist''])"
  unfolding rmSync_def
  by (rule sim_update) (simp add: delete_update)

lemma sim_copyFileSync:
  assumes "unaffected src"
  shows "sim h f A C (copyFileSync src (''dist'' # p))"
proof (rule simI)
  fix fs assume pr: "post_removed h f A C" and c: "map_of fs ''content'' = Some A"
  have l: "lookup (AList.update ''content'' C fs) src = lookup fs src"
    using pr c assms by (rule lookup_unaffected)
  show "\<exists>r fs' out out'. copyFileSync src (''dist'' # p) fs = (r, fs', out) \<and>
             copyFileSync src (''dist'' # p) (AList.update ''content'' C fs) =
               (r, AList.update ''content'' C fs', out') \<and>
             map_of fs' ''content'' = Some A"
  proof (cases "lookup fs src")
    case None
    with l c show ?thesis by (simp add: copyFileSync_def del: lookup.simps)
  next
    case (Some n)
    show ?thesis
    proof (cases n)
      case (Dir sub)
      with Some l c show ?thesis by (simp add: copyFileSync_def del: lookup.simps)
    next
      case (File s)
      have su: "sim h f A C (io_update (write_file (''dist'' # p) s))"
        by (rule sim_update) (rule write_file_dist_commute)
      from simD[OF su pr c]
      have "\<exists>r fs' out out'. io_update (write_file (''dist'' # p) s) fs = (r, fs', out) \<and>
             io_update (write_file (''dist'' # p) s) (AList.update ''content'' C fs) =
               (r, AList.update ''content'' C fs', out') \<and>
             map_of fs' ''content'' = Some A" by blast
      with File Some l show ?thesis by (simp add: copyFileSync_def del: lookup.simps)
    qed
  qed
qed

lemma unaffected_dist: "unaffected (''dist'' # p)"
  by (cases p) simp_all

lemmas sim_intros = sim_bind sim_if sim_return sim_lift sim_console sim_process_exit
  sim_existsSync sim_readFileSync sim_readdir sim_readJSON sim_writeFileSync sim_mkdirSync
  sim_rmSync sim_copyFileSync

lemma sim_ensureDir: "sim h f A C (ensureDir (''dist'' # p))"
  unfolding ensureDir_def by (intro sim_intros unaffected_dist)

lemma sim_cleanDir: "sim h f A C (cleanDir DIST_DIR)"
  unfolding cleanDir_def DIST_DIR_def by (intro sim_intros unaffected_dist)

lemma sim_copy_entries:
  "a \<noteq> ''content'' \<Longrightarrow> sim h f A C (copy_entries es (a # sp) (''dist'' # p))"
proof (induction es "a # sp" "''dist'' # p" arbitrary: sp p rule: copy_entries.induct)
  case 1
  then show ?case by (simp add: sim_intros)
next
  case (2 name data rest)
  have "unaffected ((a # sp) @ [name])" using 2(2) by (cases sp) simp_all
  with 2 show ?case by (simp add: sim_intros)
next
  case (3 name sub rest)
  then show ?case by (simp add: sim_intros sim_ensureDir)
qed

lemma sim_copyDirSync:
  "a \<noteq> ''content'' \<Longrightarrow> sim h f A C (copyDirSync [a] (''dist'' # p))"
  unfolding copyDirSync_def
  by (intro sim_intros sim_ensureDir sim_copy_entries) simp_all

lemma concat_removeAll:
  assumes "F f = []" "\<And>g. g \<noteq> f \<Longrightarrow> G g = F g"
  shows "concat (map G (filter P (removeAll f names))) = concat (map F (filter P names))"
  using assms by (induction names) auto

lemma parsed_posts_delete:
  assumes "try_post h (map_of ps f) = Inl m"
  shows "parsed_posts h (AList.delete f ps) = parsed_posts h ps"
  unfolding parsed_posts_def post_names_def delete_keys
  by (rule concat_removeAll) (simp_all add: assms)

lemma sim_readPosts: "sim h f A C (readPosts h)"
proof (rule simI)
  fix fs assume pr: "post_removed h f A C" and c: "map_of fs ''content'' = Some A"
  from pr obtain a ps m where a: "A = Dir a" "map_of a ''posts'' = Some (Dir ps)"
    "try_post h (map_of ps f) = Inl m"
    "C = Dir (AList.update ''posts'' (Dir (AList.delete f ps)) a)"
    unfolding post_removed_def by blast
  have l1: "lookup fs [''content'', ''posts''] = Some (Dir ps)"
    using c a(1,2) by simp
  have l2: "lookup (AList.update ''content'' C fs) [''content'', ''posts''] =
      Some (Dir (AList.delete f ps))"
    using a(4) by (simp add: AList.update_conv')
  show "\<exists>r fs' out out'. readPosts h fs = (r, fs', out) \<and>
             readPosts h (AList.update ''content'' C fs) = (r, AList.update ''content'' C fs', out') \<and>
             map_of fs' ''content'' = Some A"
    unfolding readPosts_eq[OF l1] readPosts_eq[OF l2] parsed_posts_delete[OF a(3)]
    using c by simp
qed

lemma sim_injectData: "sim h f A C (injectData h html)"
  unfolding injectData_def inject_all_def Let_def
  by (intro sim_intros sim_readPosts) simp_all

lemma sim_buildOriginHTML: "sim h f A C (buildOriginHTML h)"
  unfolding buildOriginHTML_def
  by (intro sim_intros) simp_all

lemma sim_origin_step: "sim h f A C (origin_step h)"
  unfolding origin_step_def
  by (intro sim_intros sim_buildOriginHTML)

lemma sim_entry_step: "sim h f A C entry_step"
  unfolding entry_step_def Let_def DIST_DIR_def
  by (simp add: sim_intros)

lemma sim_origin_page: "sim h f A C (origin_page originHTML page)"
  unfolding origin_page_def Let_def DIST_DIR_def
  by (simp add: sim_intros)

lemma sim_for_each: "(\<And>x. sim h f A C (body x)) \<Longrightarrow> sim h f A C (for_each xs body)"
  by (induction xs) (simp_all add: sim_intros)

lemma sim_origin_pages_step: "sim h f A C (origin_pages_step originHTML)"
  unfolding origin_pages_step_def by (intro sim_for_each sim_origin_page)

lemma sim_blog_step: "sim h f A C (blog_step h)"
  unfolding blog_step_def Let_def DIST_DIR_def
  by (simp add: sim_intros sim_injectData)

lemma sim_assets_step: "sim h f A C assets_step"
  unfolding assets_step_def Let_def DIST_DIR_def
  by (simp add: sim_intros sim_copyDirSync)

lemma sim_cname_step: "sim h f A C cname_step"
  unfolding cname_step_def Let_def DIST_DIR_def
  by (simp add: sim_intros)

lemma sim_build: "sim h f A C (build h elapsed)"
  unfolding build_def
  by (intro sim_intros sim_cleanDir sim_origin_step sim_entry_step sim_origin_pages_step
      sim_blog_step sim_assets_step sim_cname_step)

lemma without_post_eq:
  assumes "map_of fs ''content'' = Some (Dir a)" "map_of a ''posts'' = Some (Dir ps)"
  shows "without_post f fs =
     AList.update ''content'' (Dir (AList.update ''posts'' (Dir (AList.delete f ps)) a)) fs"
  using assms by (simp add: without_post_def)

lemma post_warning_logged:
  assumes "map_of ps f = Some (File text)" "JSON_parse h (toString_utf8 text) = Inl m"
    "endsWith f ''.json''"
  shows "post_warning f m \<in> set (post_warnings h ps)"
proof -
  from assms(1) have "f \<in> fst ` set ps" using map_of_eq_None_iff[of ps f] by auto
  with assms(3) have "f \<in> set (post_names ps)" by (simp add: post_names_def)
  with assms(1,2) show ?thesis by (force simp add: post_warnings_def)
qed

subsection \<open>The output tree of a build that completes\<close>

lemma cleaned_with_dist: "cleaned fs = with_dist [] fs"
  by (simp add: cleaned_def with_dist_def)

lemma map_of_with_dist:
  "map_of (with_dist d fs) c = (if c = ''dist'' then Some (Dir d) else map_of fs c)"
  by (simp add: with_dist_def AList.update_conv' AList.delete_conv')

lemma lookup_with_dist_other:
  "c \<noteq> ''dist'' \<Longrightarrow> lookup (with_dist d fs) (c # cs) = lookup fs (c # cs)"
  by (simp add: map_of_with_dist)

lemma lookup_with_dist: "lookup (with_dist d fs) (''dist'' # p) = lookup d p"
  by (simp add: map_of_with_dist)

lemma update_with_dist: "AList.update ''dist'' (Dir d') (with_dist d fs) = with_dist d' fs"
  by (simp add: with_dist_def)

lemma write_at_with_dist:
  "write_at (''dist'' # c # cs) n (with_dist d fs) =
     (case write_at (c # cs) n d of Inl e \<Rightarrow> Inl e | Inr d' \<Rightarrow> Inr (with_dist d' fs))"
  by (simp add: map_of_with_dist update_with_dist split: sum.splits)

lemma mkdir_p_with_dist:
  "mkdir_p (''dist'' # p) (with_dist d fs) =
     (case mkdir_p p d of Inl e \<Rightarrow> Inl e | Inr d' \<Rightarrow> Inr (with_dist d' fs))"
  by (simp add: map_of_with_dist update_with_dist split: sum.splits)

lemma write_file_with_dist:
  "write_file (''dist'' # c # cs) s (with_dist d fs) =
     (case write_file (c # cs) s d of Inl e \<Rightarrow> Inl e | Inr d' \<Rightarrow> Inr (with_dist d' fs))"
  unfolding write_file_def lookup_with_dist write_at_with_dist
  by (simp split: option.splits node.splits del: lookup.simps write_at.simps)

lemma update_fresh: "k \<notin> fst ` set al \<Longrightarrow> AList.update k v al = al @ [(k, v)]"
  by (induction al) auto

lemma write_at_snoc:
  "lookup d q = Some (Dir acc) \<Longrightarrow> q \<noteq> [] \<Longrightarrow>
   write_at (q @ [name]) n d = write_at q (Dir (AList.update name n acc)) d"
proof (induction q arbitrary: d)
  case Nil
  then show ?case by simp
next
  case (Cons c cs)
  show ?case
  proof (cases cs)
    case Nil
    with Cons.prems show ?thesis by (simp split: option.splits node.splits)
  next
    case (Cons c' cs')
    with Cons.prems obtain sub where sub: "map_of d c = Some (Dir sub)" "lookup sub cs = Some (Dir acc)"
      by (auto split: option.splits node.splits if_splits)
    from Cons.IH[OF sub(2)] Cons have "write_at (cs @ [name]) n sub = write_at cs (Dir (AList.update name n acc)) sub"
      by simp
    with sub Cons show ?thesis by simp
  qed
qed

lemma lookup_Cons: "map_of es c = Some (Dir sub) \<Longrightarrow> lookup es (c # cs) = lookup sub cs"
  by simp

lemma lookup_dir_Cons:
  "lookup d (c # cs) = Some (Dir acc) \<Longrightarrow>
   \<exists>sub. map_of d c = Some (Dir sub) \<and> lookup sub cs = Some (Dir acc)"
  by (auto split: option.splits node.splits if_splits)

lemma mkdir_p_snoc:
  "lookup d q = Some (Dir acc) \<Longrightarrow> q \<noteq> [] \<Longrightarrow> map_of acc name = None \<Longrightarrow>
   mkdir_p (q @ [name]) d = write_at q (Dir (AList.update name (Dir []) acc)) d"
proof (induction q arbitrary: d)
  case Nil
  then show ?case by simp
next
  case (Cons c cs)
  from lookup_dir_Cons[OF Cons.prems(1)]
  obtain sub where sub: "map_of d c = Some (Dir sub)" "lookup sub cs = Some (Dir acc)" by blast
  show ?case
  proof (cases cs)
    case Nil
    with sub Cons.prems(3) show ?thesis by simp
  next
    case c2: (Cons c' cs')
    from Cons.IH[OF sub(2) _ Cons.prems(3)] c2
    have "mkdir_p (cs @ [name]) sub = write_at cs (Dir (AList.update name (Dir []) acc)) sub"
      by simp
    with sub c2 show ?thesis by simp
  qed
qed

lemma write_at_lookup: "write_at q n d = Inr d' \<Longrightarrow> lookup d' q = Some n"
proof (induction q n d arbitrary: d' rule: write_at.induct)
  case (1 n es)
  then show ?case by simp
next
  case (2 c n es)
  then show ?case by (cases n) (auto simp add: AList.update_conv')
next
  case (3 c c' cs n es)
  from 3(2) obtain sub sub' where s: "map_of es c = Some (Dir sub)"
    "write_at (c' # cs) n sub = Inr sub'" "d' = AList.update c (Dir sub') es"
    by (auto split: option.splits node.splits sum.splits)
  from 3(1)[OF s(1) _ s(2)] have "lookup sub' (c' # cs) = Some n" by simp
  moreover have "map_of d' c = Some (Dir sub')" using s(3) by (simp add: AList.update_conv')
  ultimately show ?case using lookup_Cons[of d' c sub' "c' # cs"] by simp
qed

lemma write_at_ok: "lookup d q = Some x \<Longrightarrow> q \<noteq> [] \<Longrightarrow> \<exists>d'. write_at q n d = Inr d'"
proof (induction q n d rule: write_at.induct)
  case (1 n es)
  then show ?case by simp
next
  case (2 c n es)
  then show ?case by simp
next
  case (3 c c' cs n es)
  then show ?case by (auto split: option.splits node.splits sum.splits if_splits)
qed

lemma write_at_again: "write_at q n d = Inr d1 \<Longrightarrow> write_at q n' d1 = write_at q n' d"
proof (induction q n d arbitrary: d1 rule: write_at.induct)
  case (1 n es)
  then show ?case by simp
next
  case (2 c n es)
  then show ?case by auto
next
  case (3 c c' cs n es)
  then show ?case
    by (auto simp add: AList.update_conv' split: option.splits node.splits sum.splits)
qed


lemma write_at_same: "lookup d q = Some (Dir acc) \<Longrightarrow> q \<noteq> [] \<Longrightarrow> write_at q (Dir acc) d = Inr d"
proof (induction q arbitrary: d)
  case Nil
  then show ?case by simp
next
  case (Cons c cs)
  from lookup_dir_Cons[OF Cons.prems(1)]
  obtain sub where sub: "map_of d c = Some (Dir sub)" "lookup sub cs = Some (Dir acc)" by blast
  show ?case
  proof (cases cs)
    case Nil
    with sub show ?thesis by (simp add: update_triv)
  next
    case c2: (Cons c' cs')
    with Cons.IH[OF sub(2)] have "write_at cs (Dir acc) sub = Inr sub" by simp
    with sub c2 show ?thesis by (simp add: update_triv)
  qed
qed

lemma update_snoc:
  "k \<notin> fst ` set al \<Longrightarrow> AList.update k v (al @ [(k, v0)]) = al @ [(k, v)]"
  by (induction al) auto

lemma proper_entries_distinct: "proper_entries es \<Longrightarrow> distinct (map fst es)"
  by (induction es rule: proper_entries.induct) auto

lemma outside_append: "outside p \<Longrightarrow> outside (p @ q)"
  unfolding outside_def by auto

lemma lookup_with_dist_outside: "outside p \<Longrightarrow> lookup (with_dist d fs) p = lookup fs p"
  unfolding outside_def by (auto simp add: map_of_with_dist)

lemma copied_file:
  assumes src: "outside src" "lookup fs src = Some (File bytes)"
    and q: "lookup d q = Some (Dir acc)" "q \<noteq> []" "name \<notin> fst ` set acc"
  shows "\<exists>d1. write_at q (Dir (acc @ [(name, File bytes)])) d = Inr d1 \<and>
      copyFileSync src (''dist'' # q @ [name]) (with_dist d fs) = (Inr (), with_dist d1 fs, [])"
proof -
  from write_at_ok[OF q(1,2)] obtain d1 where d1: "write_at q (Dir (acc @ [(name, File bytes)])) d = Inr d1"
    by blast
  have none: "lookup d (q @ [name]) = None"
    using lookup_append[OF q(1), of name] q(3) by (simp add: map_of_eq_None_iff)
  have w: "write_at (q @ [name]) (File bytes) d = Inr d1"
    using write_at_snoc[OF q(1,2), of name "File bytes"] d1 q(3) by (simp add: update_fresh)
  obtain c cs where qq: "q @ [name] = c # cs" using q(2) by (cases q) auto
  have "write_file (''dist'' # q @ [name]) bytes (with_dist d fs) = Inr (with_dist d1 fs)"
    unfolding qq write_file_with_dist using none w unfolding qq
    by (simp add: write_file_def del: lookup.simps write_at.simps)
  with src d1 show ?thesis
    by (simp add: copyFileSync_def lookup_with_dist_outside io_update_def del: lookup.simps)
qed

lemma made_dir:
  assumes q: "lookup d q = Some (Dir acc)" "q \<noteq> []" "name \<notin> fst ` set acc"
  shows "\<exists>d1. write_at q (Dir (acc @ [(name, Dir [])])) d = Inr d1 \<and>
      ensureDir (''dist'' # q @ [name]) (with_dist d fs) = (Inr (), with_dist d1 fs, [])"
proof -
  from write_at_ok[OF q(1,2)] obtain d1 where d1: "write_at q (Dir (acc @ [(name, Dir [])])) d = Inr d1"
    by blast
  have n: "map_of acc name = None" using q(3) by (simp add: map_of_eq_None_iff)
  have none: "lookup d (q @ [name]) = None"
    using lookup_append[OF q(1), of name] n by simp
  have "mkdir_p (q @ [name]) d = Inr d1"
    using mkdir_p_snoc[OF q(1,2) n] d1 q(3) by (simp add: update_fresh)
  then have "mkdir_p (''dist'' # q @ [name]) (with_dist d fs) = Inr (with_dist d1 fs)"
    unfolding mkdir_p_with_dist by simp
  with none d1 show ?thesis
    by (simp add: ensureDir_def io_bind_def existsSync_def lookup_with_dist mkdirSync_def
        io_update_def del: lookup.simps mkdir_p.simps)
qed

lemma copy_entries_eq:
  "proper_entries es \<Longrightarrow> outside src \<Longrightarrow>
   (\<And>name n. (name, n) \<in> set es \<Longrightarrow> lookup fs (src @ [name]) = Some n) \<Longrightarrow>
   lookup d q = Some (Dir acc) \<Longrightarrow> q \<noteq> [] \<Longrightarrow> fst ` set es \<inter> fst ` set acc = {} \<Longrightarrow>
   \<exists>d'. write_at q (Dir (acc @ es)) d = Inr d' \<and>
        copy_entries es src (''dist'' # q) (with_dist d fs) = (Inr (), with_dist d' fs, [])"
proof (induction es src "''dist'' # q" arbitrary: q d acc rule: copy_entries.induct)
  case (1 src)
  then show ?case by (simp add: write_at_same io_return_def)
next
  case (2 name bytes rest src)
  have fresh: "name \<notin> fst ` set acc" using 2(7) by auto
  have l: "lookup fs (src @ [name]) = Some (File bytes)" using 2(4) by simp
  from copied_file[OF outside_append[OF 2(3)] l 2(5,6) fresh]
  obtain d1 where d1: "write_at q (Dir (acc @ [(name, File bytes)])) d = Inr d1"
    "copyFileSync (src @ [name]) (''dist'' # q @ [name]) (with_dist d fs) = (Inr (), with_dist d1 fs, [])"
    by blast
  have l1: "lookup d1 q = Some (Dir (acc @ [(name, File bytes)]))"
    using d1(1) by (rule write_at_lookup)
  have "\<exists>d'. write_at q (Dir ((acc @ [(name, File bytes)]) @ rest)) d1 = Inr d' \<and>
        copy_entries rest src (''dist'' # q) (with_dist d1 fs) = (Inr (), with_dist d' fs, [])"
    by (rule 2(1)[OF _ 2(3) _ l1 2(6)]) (use 2(2,4,7) in auto)
  then obtain d' where d': "write_at q (Dir ((acc @ [(name, File bytes)]) @ rest)) d1 = Inr d'"
    "copy_entries rest src (''dist'' # q) (with_dist d1 fs) = (Inr (), with_dist d' fs, [])" by blast
  from d'(1) have "write_at q (Dir (acc @ (name, File bytes) # rest)) d = Inr d'"
    using write_at_again[OF d1(1)] by simp
  with d1(2) d'(2) show ?case by (simp add: io_bind_def)
next
  case (3 name sub rest src)
  have fresh: "name \<notin> fst ` set acc" using 3(8) by auto
  have l: "lookup fs (src @ [name]) = Some (Dir sub)" using 3(5) by simp
  from made_dir[OF 3(6,7) fresh, of fs]
  obtain d1 where d1: "write_at q (Dir (acc @ [(name, Dir [])])) d = Inr d1"
    "ensureDir (''dist'' # q @ [name]) (with_dist d fs) = (Inr (), with_dist d1 fs, [])"
    by blast
  have l1: "lookup d1 q = Some (Dir (acc @ [(name, Dir [])]))"
    using d1(1) by (rule write_at_lookup)
  have l1n: "lookup d1 (q @ [name]) = Some (Dir [])"
    using lookup_append[OF l1, of name] fresh
    by (simp add: map_add_def map_of_eq_None_iff[symmetric] split: option.splits)
  have ds: "distinct (map fst sub)" using 3(3) by (simp add: proper_entries_distinct)
  have "\<exists>d2. write_at (q @ [name]) (Dir ([] @ sub)) d1 = Inr d2 \<and>
        copy_entries sub (src @ [name]) (''dist'' # q @ [name]) (with_dist d1 fs) =
          (Inr (), with_dist d2 fs, [])"
  proof (rule 3(1)[OF _ _ outside_append[OF 3(4)] _ l1n])
    show "(''dist'' # q) @ [name] = ''dist'' # q @ [name]" by simp
    show "proper_entries sub" using 3(3) by simp
    show "lookup fs ((src @ [name]) @ [name']) = Some n" if "(name', n) \<in> set sub" for name' n
      using lookup_append[OF l, of name'] that ds by simp
  qed (use 3(7) in auto)
  then obtain d2 where d2: "write_at (q @ [name]) (Dir sub) d1 = Inr d2"
    "copy_entries sub (src @ [name]) (''dist'' # q @ [name]) (with_dist d1 fs) =
          (Inr (), with_dist d2 fs, [])" by auto
  have w2: "write_at q (Dir (acc @ [(name, Dir sub)])) d = Inr d2"
    using write_at_snoc[OF l1 3(7), of name "Dir sub"] d2(1) write_at_again[OF d1(1)] fresh
    by (simp add: update_snoc)
  have l2: "lookup d2 q = Some (Dir (acc @ [(name, Dir sub)]))"
    using w2 by (rule write_at_lookup)
  have "\<exists>d'. write_at q (Dir ((acc @ [(name, Dir sub)]) @ rest)) d2 = Inr d' \<and>
        copy_entries rest src (''dist'' # q) (with_dist d2 fs) = (Inr (), with_dist d' fs, [])"
    by (rule 3(2)[OF _ 3(4) _ l2 3(7)]) (use 3(3,5,8) in auto)
  then obtain d' where d': "write_at q (Dir ((acc @ [(name, Dir sub)]) @ rest)) d2 = Inr d'"
    "copy_entries rest src (''dist'' # q) (with_dist d2 fs) = (Inr (), with_dist d' fs, [])" by blast
  from d'(1) have "write_at q (Dir (acc @ (name, Dir sub) # rest)) d = Inr d'"
    using write_at_again[OF w2] by simp
  with d1(2) d2(2) d'(2) show ?case by (simp add: io_bind_def)
qed


lemma outside_dist_with_dist: "outside_dist (with_dist d fs) = outside_dist fs"
  by (simp add: outside_dist_def with_dist_def delete_update_same delete_idem)

lemma write_file_fresh:
  "name \<notin> fst ` set d \<Longrightarrow> write_file [name] s d = Inr (d @ [(name, File s)])"
  by (simp add: write_file_def update_fresh map_of_eq_None_iff[symmetric] split: option.splits node.splits)

lemma page_written:
  assumes "name \<notin> fst ` set d"
  shows "writeFileSync [''dist'', name] s (with_dist d fs) = (Inr (), with_dist (d @ [(name, File s)]) fs, [])"
  using write_file_fresh[OF assms, of s]
  by (simp add: writeFileSync_def io_update_def write_file_with_dist del: write_file_def)

lemma origin_page_eq:
  assumes "file_or_absent (lookup fs [''templates'', page])" "page \<notin> fst ` set d"
  shows "\<exists>out. origin_page originHTML page (with_dist d fs) =
     (Inr (), with_dist (d @ page_entry page (\<lambda>html. injectOrigin html originHTML)
        (lookup fs [''templates'', page])) fs, out)"
proof -
  have l: "lookup (with_dist d fs) [''templates'', page] = lookup fs [''templates'', page]"
    by (rule lookup_with_dist_other) simp
  show ?thesis
  proof (cases "lookup fs [''templates'', page]")
    case None
    with l show ?thesis
      by (simp add: origin_page_def Let_def io_bind_def existsSync_def console_warn_def
          del: lookup.simps)
  next
    case (Some n)
    with assms(1) obtain bytes where n: "n = File bytes" by (cases n) auto
    with Some l page_written[OF assms(2), of "injectOrigin (toString_utf8 bytes) originHTML" fs]
    show ?thesis
      by (simp add: origin_page_def Let_def io_bind_def existsSync_def readFileSync_def
          console_log_def DIST_DIR_def del: lookup.simps)
  qed
qed

lemma readPosts_outside:
  assumes "outside_dist fs' = outside_dist fs" "readPosts h fs = (r, fs, out)"
  shows "readPosts h fs' = (r, fs', out)"
proof -
  have l: "lookup fs' [''content'', ''posts''] = lookup fs [''content'', ''posts'']"
    using assms(1) by (rule outside_dist_lookup) simp
  show ?thesis
  proof (cases "lookup fs [''content'', ''posts'']")
    case None
    with l assms(2) show ?thesis by (simp add: readPosts_def io_defs Let_def del: lookup.simps)
  next
    case (Some n)
    show ?thesis
    proof (cases n)
      case (Dir es)
      with Some l assms(2) show ?thesis by (simp add: readPosts_eq del: lookup.simps)
    next
      case (File bytes)
      with Some l assms(2) show ?thesis
        by (simp add: readPosts_def Let_def readdirSync_def readdirSync_withFileTypes_def io_defs
            del: lookup.simps)
    qed
  qed
qed

lemma injectData_outside:
  assumes "outside_dist fs' = outside_dist fs" "injectData h html fs = (r, fs, out)"
  shows "injectData h html fs' = (r, fs', out)"
proof -
  from reads_onlyD2[OF reads_only_readPosts, of h fs]
  obtain rp outp where rp: "readPosts h fs = (rp, fs, outp)" by blast
  note rp' = readPosts_outside[OF assms(1) rp]
  have l: "lookup fs' (''content'' # p) = lookup fs (''content'' # p)" for p
    using assms(1) by (rule outside_dist_lookup) simp
  from assms(2) show ?thesis
    unfolding injectData_def io_bind_def rp rp'
    by (auto simp add: readJSON_eq l inject_all_def Let_def io_bind_def io_lift_def io_return_def
        console_log_def split: sum.splits prod.splits simp del: lookup.simps)
qed

lemma buildOriginHTML_outside:
  assumes "outside_dist fs' = outside_dist fs" "buildOriginHTML h fs = (r, fs, out)"
  shows "buildOriginHTML h fs' = (r, fs', out)"
proof -
  have l: "lookup fs' (''content'' # p) = lookup fs (''content'' # p)" for p
    using assms(1) by (rule outside_dist_lookup) simp
  from assms(2) show ?thesis
    unfolding buildOriginHTML_def io_bind_def
    by (auto simp add: readJSON_eq l io_lift_def io_return_def split: sum.splits prod.splits if_splits
        simp del: lookup.simps)
qed

lemma blog_step_eq:
  assumes "file_or_absent (lookup fs [''templates'', ''blog.html''])" "''blog.html'' \<notin> fst ` set d"
    and "\<And>html. fst (injectData h html fs) = Inr (blog html)"
  shows "\<exists>out. blog_step h (with_dist d fs) =
     (Inr (), with_dist (d @ page_entry ''blog.html'' blog (lookup fs [''templates'', ''blog.html''])) fs,
      out)"
proof -
  have l: "lookup (with_dist d fs) [''templates'', ''blog.html''] = lookup fs [''templates'', ''blog.html'']"
    by (rule lookup_with_dist_other) simp
  show ?thesis
  proof (cases "lookup fs [''templates'', ''blog.html'']")
    case None
    with l show ?thesis
      by (simp add: blog_step_def Let_def io_bind_def existsSync_def console_warn_def
          del: lookup.simps)
  next
    case (Some n)
    with assms(1) obtain bytes where n: "n = File bytes" by (cases n) auto
    from reads_onlyD2[OF reads_only_injectData, of h "toString_utf8 bytes" fs] assms(3)[of "toString_utf8 bytes"]
    obtain out where "injectData h (toString_utf8 bytes) fs = (Inr (blog (toString_utf8 bytes)), fs, out)"
      by auto
    from injectData_outside[OF outside_dist_with_dist this]
    have i: "injectData h (toString_utf8 bytes) (with_dist d fs) =
        (Inr (blog (toString_utf8 bytes)), with_dist d fs, out)" .
    with Some n l page_written[OF assms(2), of "blog (toString_utf8 bytes)" fs]
    show ?thesis
      by (simp add: blog_step_def Let_def io_bind_def existsSync_def readFileSync_def
          console_log_def DIST_DIR_def del: lookup.simps)
  qed
qed

lemma cname_step_eq:
  assumes "file_or_absent (lookup fs [''CNAME''])" "''CNAME'' \<notin> fst ` set d"
  shows "\<exists>out. cname_step (with_dist d fs) =
     (Inr (), with_dist (d @ copied_entry ''CNAME'' (lookup fs [''CNAME''])) fs, out)"
proof -
  have l: "lookup (with_dist d fs) [''CNAME''] = lookup fs [''CNAME'']"
    by (rule lookup_with_dist_other) simp
  show ?thesis
  proof (cases "lookup fs [''CNAME'']")
    case None
    with l show ?thesis
      by (simp add: cname_step_def Let_def io_bind_def existsSync_def io_return_def
          del: lookup.simps)
  next
    case (Some n)
    with assms(1) obtain bytes where n: "n = File bytes" by (cases n) auto
    with Some l write_file_fresh[OF assms(2), of bytes]
    show ?thesis
      by (simp add: cname_step_def Let_def io_bind_def existsSync_def copyFileSync_def
          io_update_def write_file_with_dist console_log_def DIST_DIR_def
          del: lookup.simps write_file_def)
  qed
qed

lemma assets_step_eq:
  assumes "tree_or_absent (lookup fs [''assets''])" "''assets'' \<notin> fst ` set d"
  shows "\<exists>out. assets_step (with_dist d fs) =
     (Inr (), with_dist (d @ copied_entry ''assets'' (lookup fs [''assets''])) fs, out)"
proof -
  have l: "lookup (with_dist d fs) [''assets''] = lookup fs [''assets'']"
    by (rule lookup_with_dist_other) simp
  show ?thesis
  proof (cases "lookup fs [''assets'']")
    case None
    with l show ?thesis
      by (simp add: assets_step_def Let_def io_bind_def existsSync_def io_return_def
          del: lookup.simps)
  next
    case (Some n)
    with assms(1) obtain es where n: "n = Dir es" and es: "proper_entries es" by (cases n) auto
    let ?d1 = "d @ [(''assets'', Dir [])]"
    have none: "lookup d [''assets''] = None"
      using assms(2) by (simp add: map_of_eq_None_iff[symmetric] split: option.splits)
    have m: "mkdir_p [''dist'', ''assets''] (with_dist d fs) = Inr (with_dist ?d1 fs)"
      unfolding mkdir_p_with_dist using assms(2)
      by (simp add: update_fresh map_of_eq_None_iff[symmetric] split: option.splits)
    have e: "ensureDir [''dist'', ''assets''] (with_dist d fs) = (Inr (), with_dist ?d1 fs, [])"
      using none m
      by (simp add: ensureDir_def io_bind_def existsSync_def lookup_with_dist mkdirSync_def
          io_update_def del: lookup.simps mkdir_p.simps)
    have l1: "lookup ?d1 [''assets''] = Some (Dir [])"
      using assms(2) by (simp add: map_add_def map_of_eq_None_iff[symmetric] split: option.splits)
    have "\<exists>d'. write_at [''assets''] (Dir ([] @ es)) ?d1 = Inr d' \<and>
        copy_entries es [''assets''] (''dist'' # [''assets'']) (with_dist ?d1 fs) =
          (Inr (), with_dist d' fs, [])"
    proof (rule copy_entries_eq[OF es _ _ l1])
      show "outside [''assets'']" by (simp add: outside_def)
      show "lookup fs ([''assets''] @ [name]) = Some x" if "(name, x) \<in> set es" for name x
        using lookup_append[of fs "[''assets'']" es name] Some n that proper_entries_distinct[OF es]
        by simp
    qed simp_all
    then have c: "copy_entries es [''assets''] [''dist'', ''assets''] (with_dist ?d1 fs) =
        (Inr (), with_dist (d @ [(''assets'', Dir es)]) fs, [])"
      using assms(2) by (auto simp add: update_snoc)
    have r: "readdirSync_withFileTypes [''assets''] (with_dist ?d1 fs) = (Inr es, with_dist ?d1 fs, [])"
      using Some n lookup_with_dist_other[of "''assets''" ?d1 fs "[]"]
      by (simp add: readdirSync_withFileTypes_def del: lookup.simps)
    have x: "existsSync [''assets''] (with_dist d fs) = (Inr True, with_dist d fs, [])"
      using Some l by (simp add: existsSync_def del: lookup.simps)
    have "copyDirSync [''assets''] [''dist'', ''assets''] (with_dist d fs) =
        (Inr (), with_dist (d @ [(''assets'', Dir es)]) fs, [])"
      using x e r c by (simp add: copyDirSync_def io_bind_def)
    with x Some n show ?thesis
      by (simp add: assets_step_def Let_def io_bind_def console_log_def DIST_DIR_def
          del: lookup.simps)
  qed
qed


lemma page_entry_names: "fst ` set (page_entry name render x) \<subseteq> {name}"
  by (cases "(name, render, x)" rule: page_entry.cases) auto

lemma copied_entry_names: "fst ` set (copied_entry name x) \<subseteq> {name}"
  by (cases x) auto

lemma run_completes:
  assumes io: "inputs_in_order fs"
    and o: "fst (buildOriginHTML h fs) = Inr originHTML"
    and b: "\<And>html. fst (injectData h html fs) = Inr (blog html)"
  shows "fst (run h elapsed fs) = Completed \<and>
         fst (snd (run h elapsed fs)) = with_dist (output_tree fs originHTML blog) fs"
proof -
  let ?render = "\<lambda>html. injectOrigin html originHTML"
  let ?ripple = "page_entry ''ripple.html'' ?render (lookup fs [''templates'', ''ripple.html''])"
  let ?clean = "page_entry ''clean.html'' ?render (lookup fs [''templates'', ''clean.html''])"
  let ?blog = "page_entry ''blog.html'' blog (lookup fs [''templates'', ''blog.html''])"
  let ?assets = "copied_entry ''assets'' (lookup fs [''assets''])"
  let ?cname = "copied_entry ''CNAME'' (lookup fs [''CNAME''])"
  from io obtain entry where entry: "lookup fs [''templates'', ''entry.html''] = Some (File entry)"
    unfolding inputs_in_order_def
    by (cases "lookup fs [''templates'', ''entry.html'']" rule: is_file.cases) auto
  let ?d0 = "[(''index.html'', File entry)]"
  let ?d1 = "?d0 @ ?ripple"
  let ?d2 = "?d1 @ ?clean"
  let ?d3 = "?d2 @ ?blog"
  let ?d4 = "?d3 @ ?assets"
  let ?d5 = "?d4 @ ?cname"
  note names = page_entry_names[of "''ripple.html''" ?render "lookup fs [''templates'', ''ripple.html'']"]
    page_entry_names[of "''clean.html''" ?render "lookup fs [''templates'', ''clean.html'']"]
    page_entry_names[of "''blog.html''" blog "lookup fs [''templates'', ''blog.html'']"]
    copied_entry_names[of "''assets''" "lookup fs [''assets'']"]
  from reads_onlyD2[OF reads_only_buildOriginHTML, of h fs] o
  obtain out0 where "buildOriginHTML h fs = (Inr originHTML, fs, out0)" by auto
  from buildOriginHTML_outside[OF outside_dist_with_dist this]
  have "buildOriginHTML h (with_dist [] fs) = (Inr originHTML, with_dist [] fs, out0)" .
  then have "\<exists>out1. origin_step h (cleaned fs) = (Inr originHTML, cleaned fs, out1)"
    by (cases "truthy_string originHTML")
       (simp_all add: origin_step_def io_bind_def io_return_def console_log_def console_warn_def
        cleaned_with_dist)
  then obtain out1 where s1: "origin_step h (cleaned fs) = (Inr originHTML, cleaned fs, out1)"
    by blast
  have "write_file [''dist'', ''index.html''] entry (with_dist [] fs) = Inr (with_dist ?d0 fs)"
    unfolding write_file_with_dist by (simp add: write_file_def)
  with entry lookup_with_dist_other[of "''templates''" "[]" fs "[''entry.html'']"]
  obtain out2 where s2: "entry_step (cleaned fs) = (Inr (), with_dist ?d0 fs, out2)"
    by (simp add: entry_step_eq cleaned_with_dist del: lookup.simps)
  from io have f: "file_or_absent (lookup fs [''templates'', ''ripple.html''])"
    "file_or_absent (lookup fs [''templates'', ''clean.html''])"
    "file_or_absent (lookup fs [''templates'', ''blog.html''])"
    "tree_or_absent (lookup fs [''assets''])"
    "file_or_absent (lookup fs [''CNAME''])"
    unfolding inputs_in_order_def by blast+
  from origin_page_eq[OF f(1), of ?d0 originHTML]
  obtain out3 where s3: "origin_page originHTML ''ripple.html'' (with_dist ?d0 fs) =
      (Inr (), with_dist ?d1 fs, out3)" by auto
  have "''clean.html'' \<notin> fst ` set ?d1" using names(1) by auto
  from origin_page_eq[OF f(2) this, of originHTML]
  obtain out4 where s4: "origin_page originHTML ''clean.html'' (with_dist ?d1 fs) =
      (Inr (), with_dist ?d2 fs, out4)" by auto
  have "''blog.html'' \<notin> fst ` set ?d2" using names(1,2) by auto
  from blog_step_eq[OF f(3) this b]
  obtain out5 where s5: "blog_step h (with_dist ?d2 fs) = (Inr (), with_dist ?d3 fs, out5)" by auto
  have "''assets'' \<notin> fst ` set ?d3" using names(1,2,3) by auto
  from assets_step_eq[OF f(4) this]
  obtain out6 where s6: "assets_step (with_dist ?d3 fs) = (Inr (), with_dist ?d4 fs, out6)" by auto
  have "''CNAME'' \<notin> fst ` set ?d4" using names by auto
  from cname_step_eq[OF f(5) this]
  obtain out7 where s7: "cname_step (with_dist ?d4 fs) = (Inr (), with_dist ?d5 fs, out7)" by auto
  have "\<exists>out. after_entry h elapsed originHTML (with_dist ?d0 fs) = (Inr (), with_dist ?d5 fs, out)"
    using s3 s4 s5 s6 s7
    by (simp add: after_entry_def origin_pages_step_def io_bind_def io_return_def console_log_def)
  then obtain out8 where s8: "after_entry h elapsed originHTML (with_dist ?d0 fs) =
      (Inr (), with_dist ?d5 fs, out8)" by blast
  have "?d5 = output_tree fs originHTML blog"
    using entry by (simp add: output_tree_def)
  with s1 s2 s8 show ?thesis by (simp add: run_def build_eq)
qed

subsection \<open>Dollar patterns\<close>

text \<open>The replacement is a template: for the contact email \<^verbatim>\<open>a$$b@c.com\<close> the
  output of \<open>injectData\<close> holds \<^verbatim>\<open>a$b@c.com\<close>.\<close>

lemma injectData_dollar_pattern:
  \<open>readJSON example_host [''content'', ''site.json''] (JObj []) fs_site_dollar =
     (Inr (JObj [(''contact_email'', JStr ''a$$b@c.com'')]), fs_site_dollar, []) \<and>
   injectData example_host ''<a>/*__CONTACT_EMAIL__*/</a>'' fs_site_dollar =
     (Inr ''<a>a$b@c.com</a>'', fs_site_dollar, [(Console_log, ''  Found 0 post(s)'')]) \<and>
   \<not> replaces_first ''<a>/*__CONTACT_EMAIL__*/</a>'' CONTACT_EMAIL ''a$$b@c.com''
       ''<a>a$b@c.com</a>''\<close>
proof -
  have p: "readPosts example_host fs_site_dollar = (Inr [], fs_site_dollar, [])"
    by (simp add: readPosts_def io_defs Let_def fs_site_dollar_def)
  have u: "readJSON example_host [''content'', ''unlinked-comments.json''] (JArr []) fs_site_dollar =
     (Inr (JArr []), fs_site_dollar, [])"
    by (simp add: readJSON_eq fs_site_dollar_def)
  have a: "readJSON example_host [''content'', ''about.json''] (JObj [(''en'', JStr []), (''es'', JStr [])])
     fs_site_dollar = (Inr (JObj [(''en'', JStr []), (''es'', JStr [])]), fs_site_dollar, [])"
    by (simp add: readJSON_eq fs_site_dollar_def)
  have s: "readJSON example_host [''content'', ''site.json''] (JObj []) fs_site_dollar =
     (Inr (JObj [(''contact_email'', JStr ''a$$b@c.com'')]), fs_site_dollar, [])"
    by (simp add: readJSON_eq fs_site_dollar_def example_host_def example_parse_def)
  have v: "injectData example_host ''<a>/*__CONTACT_EMAIL__*/</a>'' fs_site_dollar =
     (Inr ''<a>a$b@c.com</a>'', fs_site_dollar, [(Console_log, ''  Found 0 post(s)'')])"
    using p u a s
    by (simp add: injectData_def inject_all_def Let_def io_bind_def io_return_def io_lift_def
        console_log_def replace_def POSTS_JSON_def UNLINKED_JSON_def
        ABOUT_JSON_def CONTACT_EMAIL_def example_host_def example_stringify_def newline_def
        show_nat.simps del: lookup.simps)
  have n: "\<not> replaces_first ''<a>/*__CONTACT_EMAIL__*/</a>'' CONTACT_EMAIL ''a$$b@c.com''
       ''<a>a$b@c.com</a>''"
    by (simp add: replaces_first_iff replace_verbatim_def CONTACT_EMAIL_def)
  from s v n show ?thesis by simp
qed

section \<open>The claims\<close>

text \<open>
  Claim C1, as amended. When the host's collation is consistent and every parsed post is
  an entry the comparator accepts (not \<^verbatim>\<open>null\<close>; its date missing, falsy or a string),
  \<open>readPosts\<close> returns the parsed posts, each once, in descending order of their dates
  under \<^verbatim>\<open>localeCompare\<close>, a missing date counting as the empty string: for an entry
  \<open>a\<close> before an entry \<open>b\<close>, \<^verbatim>\<open>a.date.localeCompare(b.date) >= 0\<close>. Entries without
  a date come last: none is followed by an entry whose date sorts after the empty
  string. Where the collation agrees with the lexicographic order on the dates present,
  as it does on ISO dates, the result is in descending lexicographic order. The
  witness is the example of the specification: of the dates 2024-01-01 and 2024-06-01
  the later comes first.
\<close>

theorem readPosts_sorted_by_collation:
  assumes "consistent_collation (localeCompare h)"
    and "lookup fs [''content'', ''posts''] = Some (Dir es)"
    and "\<forall>v\<in>set (parsed_posts h es). date_is_text v"
  shows "\<exists>posts. readPosts h fs = (Inr posts, fs, post_warnings h es) \<and>
           mset posts = mset (parsed_posts h es) \<and>
           sorted_wrt (\<lambda>a b. 0 \<le> localeCompare h (date_of a) (date_of b)) posts \<and>
           (\<forall>i j. i < j \<longrightarrow> j < length posts \<longrightarrow> date_of (posts ! i) = [] \<longrightarrow>
              \<not> 0 < localeCompare h (date_of (posts ! j)) []) \<and>
           ((\<forall>a\<in>set posts. \<forall>b\<in>set posts.
               (0 \<le> localeCompare h (date_of a) (date_of b)) = (date_of b \<le> date_of a)) \<longrightarrow>
            sorted_wrt (\<lambda>a b. date_of b \<le> date_of a) posts)"
proof -
  from sort_posts_sorted[OF assms(1,3)]
  obtain posts where p: "Array_sort (posts_comparefn h) (parsed_posts h es) = Inr posts"
    "mset posts = mset (parsed_posts h es)"
    "sorted_wrt (\<lambda>a b. 0 \<le> localeCompare h (date_of a) (date_of b)) posts" by blast
  have "sorted_wrt (\<lambda>a b. date_of b \<le> date_of a) posts"
    if "\<forall>a\<in>set posts. \<forall>b\<in>set posts.
               (0 \<le> localeCompare h (date_of a) (date_of b)) = (date_of b \<le> date_of a)"
    using p(3) that by (auto simp add: sorted_wrt_iff_nth_less)
  moreover have "\<not> 0 < localeCompare h (date_of (posts ! j)) []"
    if "i < j" "j < length posts" "date_of (posts ! i) = []" for i j
  proof -
    from p(3) that(1,2) have "0 \<le> localeCompare h (date_of (posts ! i)) (date_of (posts ! j))"
      by (simp add: sorted_wrt_iff_nth_less)
    with that(3) have "0 \<le> localeCompare h [] (date_of (posts ! j))" by simp
    moreover have "(localeCompare h [] (date_of (posts ! j)) < 0) =
        (0 < localeCompare h (date_of (posts ! j)) [])"
      using assms(1) unfolding consistent_collation_def by blast
    ultimately show ?thesis by linarith
  qed
  ultimately show ?thesis using p assms(2) by (simp add: readPosts_eq del: lookup.simps)
qed

theorem readPosts_sorted_by_collation_witness:
  \<open>consistent_collation (localeCompare example_host) \<and>
   lookup fs_two_posts [''content'', ''posts''] = Some (Dir two_posts) \<and>
   parsed_posts example_host two_posts =
     [JObj [(''date'', JStr ''2024-01-01'')], JObj [(''date'', JStr ''2024-06-01'')]] \<and>
   date_is_text (JObj [(''date'', JStr ''2024-01-01'')]) \<and>
   date_is_text (JObj [(''date'', JStr ''2024-06-01'')]) \<and>
   readPosts example_host fs_two_posts =
     (Inr [JObj [(''date'', JStr ''2024-06-01'')], JObj [(''date'', JStr ''2024-01-01'')]],
      fs_two_posts, []) \<and>
   sorted_wrt (\<lambda>a b. date_of b \<le> date_of a)
     [JObj [(''date'', JStr ''2024-06-01'')], JObj [(''date'', JStr ''2024-01-01'')]]\<close>
proof -
  have c: "consistent_collation (localeCompare example_host)"
    by (simp add: example_host_def example_collation_consistent)
  have l: "lookup fs_two_posts [''content'', ''posts''] = Some (Dir two_posts)"
    by (simp add: fs_two_posts_def)
  have pp: \<open>parsed_posts example_host two_posts =
     [JObj [(''date'', JStr ''2024-01-01'')], JObj [(''date'', JStr ''2024-06-01'')]]\<close>
    by (simp add: parsed_posts_def post_names_def two_posts_def endsWith_def example_host_def
        example_parse_def)
  have d: "\<forall>v\<in>set (parsed_posts example_host two_posts). date_is_text v"
    by (simp add: pp)
  from readPosts_sorted_by_collation[OF c l d]
  obtain posts where p: "readPosts example_host fs_two_posts =
      (Inr posts, fs_two_posts, post_warnings example_host two_posts)"
    "sorted_wrt (\<lambda>a b. 0 \<le> localeCompare example_host (date_of a) (date_of b)) posts" by blast
  have s: "Array_sort (posts_comparefn example_host) (parsed_posts example_host two_posts) =
      Inr [JObj [(''date'', JStr ''2024-06-01'')], JObj [(''date'', JStr ''2024-01-01'')]]"
    unfolding pp
    by (simp add: Array_sort_def posts_comparefn_def example_host_def example_collation_def
        fold_case_def)
  have w: "post_warnings example_host two_posts = []"
    by (simp add: post_warnings_def post_names_def two_posts_def endsWith_def example_host_def
        example_parse_def)
  have "readPosts example_host fs_two_posts =
     (Inr [JObj [(''date'', JStr ''2024-06-01'')], JObj [(''date'', JStr ''2024-01-01'')]],
      fs_two_posts, [])"
    by (simp add: readPosts_eq[OF l] s w)
  moreover have "sorted_wrt (\<lambda>a b. date_of b \<le> date_of a)
     [JObj [(''date'', JStr ''2024-06-01'')], JObj [(''date'', JStr ''2024-01-01'')]]"
    by simp
  ultimately show ?thesis using c l pp p by simp
qed

text \<open>
  Claim C1 as stated fails: the order is the collation's, not the lexicographic one.
  For the dates \<^verbatim>\<open>a\<close> and \<^verbatim>\<open>B\<close> the entry dated \<^verbatim>\<open>B\<close> comes first, and
  \<^verbatim>\<open>'B' >= 'a'\<close> is false.
\<close>

theorem readPosts_not_lexicographic:
  "readPosts example_host fs_letters =
     (Inr [JObj [(''date'', JStr ''B'')], JObj [(''date'', JStr ''a'')]], fs_letters, []) \<and>
   \<not> date_of (JObj [(''date'', JStr ''a'')]) \<le> date_of (JObj [(''date'', JStr ''B'')])"
proof -
  have l: "lookup fs_letters [''content'', ''posts''] = Some (Dir letter_posts)"
    by (simp add: fs_letters_def)
  have pp: "parsed_posts example_host letter_posts =
      [JObj [(''date'', JStr ''a'')], JObj [(''date'', JStr ''B'')]]"
    by (simp add: parsed_posts_def post_names_def letter_posts_def endsWith_def example_host_def
        example_parse_def)
  have s: "Array_sort (posts_comparefn example_host) (parsed_posts example_host letter_posts) =
      Inr [JObj [(''date'', JStr ''B'')], JObj [(''date'', JStr ''a'')]]"
    unfolding pp
    by (simp add: Array_sort_def posts_comparefn_def example_host_def example_collation_def
        fold_case_def)
  have w: "post_warnings example_host letter_posts = []"
    by (simp add: post_warnings_def post_names_def letter_posts_def endsWith_def example_host_def
        example_parse_def)
  show ?thesis by (simp add: readPosts_eq[OF l] s w)
qed

text \<open>
  Claim C2, as amended. When \<open>readPosts\<close> returns, \<^verbatim>\<open>site.json\<close> does not hold
  \<^verbatim>\<open>null\<close> and \<^verbatim>\<open>site.contact_email || ''\<close> converts to the text \<open>address\<close> (the
  contact email itself when it is a string), \<open>injectData\<close> returns the result of four
  calls of \<^verbatim>\<open>replace\<close> made one after the other, each on the text the one before
  produced. Each call replaces the first occurrence of its token in that text, and
  nothing else: the posts token, the unlinked token, the about token and the
  contact-email token, by the serialization of the posts, of the unlinked list, of the
  about object and by \<open>address\<close>. The text put in is the value itself whenever the value
  contains none of the patterns \<^verbatim>\<open>$$\<close>, \<^verbatim>\<open>$&\<close>, \<^verbatim>\<open>$\<close> with a backquote and
  \<^verbatim>\<open>$'\<close>, which \<^verbatim>\<open>replace\<close> expands. The witness is the example of the
  specification: the contact email \<^verbatim>\<open>a@b.com\<close> stands in place of its placeholder.
\<close>

theorem injectData_replaces_tokens:
  assumes "readPosts h fs = (Inr posts, fs, out)"
    and "readJSON h [''content'', ''unlinked-comments.json''] (JArr []) fs = (Inr unlinked, fs, [])"
    and "readJSON h [''content'', ''about.json''] (JObj [(''en'', JStr []), (''es'', JStr [])]) fs =
           (Inr about, fs, [])"
    and "readJSON h [''content'', ''site.json''] (JObj []) fs = (Inr site, fs, [])"
    and "get_prop (Some site) ''contact_email'' = Inr contact_email"
    and "to_string h (or_empty contact_email) = Inr address"
  shows "\<exists>html1 html2 html3 html4.
           injectData h html fs =
             (Inr html4, fs,
              out @ [(Console_log, ''  Found '' @ show_nat (length posts) @ '' post(s)'')]) \<and>
           html1 = replace html POSTS_JSON (JSON_stringify h (JArr posts)) \<and>
           html2 = replace html1 UNLINKED_JSON (JSON_stringify h unlinked) \<and>
           html3 = replace html2 ABOUT_JSON (JSON_stringify h about) \<and>
           html4 = replace html3 CONTACT_EMAIL address \<and>
           replaces_token html POSTS_JSON (JSON_stringify h (JArr posts)) html1 \<and>
           replaces_token html1 UNLINKED_JSON (JSON_stringify h unlinked) html2 \<and>
           replaces_token html2 ABOUT_JSON (JSON_stringify h about) html3 \<and>
           replaces_token html3 CONTACT_EMAIL address html4 \<and>
           (\<forall>email. contact_email = Some (JStr email) \<longrightarrow> address = email)"
proof -
  let ?h1 = "replace html POSTS_JSON (JSON_stringify h (JArr posts))"
  let ?h2 = "replace ?h1 UNLINKED_JSON (JSON_stringify h unlinked)"
  let ?h3 = "replace ?h2 ABOUT_JSON (JSON_stringify h about)"
  let ?h4 = "replace ?h3 CONTACT_EMAIL address"
  have "injectData h html fs =
      (Inr ?h4, fs, out @ [(Console_log, ''  Found '' @ show_nat (length posts) @ '' post(s)'')])"
    using assms
    by (simp add: injectData_def inject_all_def Let_def io_bind_def io_return_def io_lift_def
        console_log_def del: lookup.simps or_empty.simps)
  moreover have "address = email" if "contact_email = Some (JStr email)" for email
    using assms(6) that by (simp split: if_splits)
  ultimately show ?thesis using replace_replaces_token by blast
qed

theorem injectData_replaces_tokens_witness:
  \<open>readPosts example_host fs_site = (Inr [], fs_site, []) \<and>
   readJSON example_host [''content'', ''unlinked-comments.json''] (JArr []) fs_site =
     (Inr (JArr []), fs_site, []) \<and>
   readJSON example_host [''content'', ''about.json''] (JObj [(''en'', JStr []), (''es'', JStr [])])
     fs_site = (Inr (JObj [(''en'', JStr []), (''es'', JStr [])]), fs_site, []) \<and>
   readJSON example_host [''content'', ''site.json''] (JObj []) fs_site =
     (Inr (JObj [(''contact_email'', JStr ''a@b.com'')]), fs_site, []) \<and>
   get_prop (Some (JObj [(''contact_email'', JStr ''a@b.com'')])) ''contact_email'' =
     Inr (Some (JStr ''a@b.com'')) \<and>
   to_string example_host (or_empty (Some (JStr ''a@b.com''))) = Inr ''a@b.com'' \<and>
   \<not> has_pattern ''a@b.com'' \<and>
   replaces_first
     (''p=[];u=[];a={'' @ newline @ ''  "en": "",'' @ newline @ ''  "es": ""'' @ newline @
      ''};e=/*__CONTACT_EMAIL__*/'')
     CONTACT_EMAIL ''a@b.com''
     (''p=[];u=[];a={'' @ newline @ ''  "en": "",'' @ newline @ ''  "es": ""'' @ newline @
      ''};e=a@b.com'') \<and>
   injectData example_host all_tokens fs_site =
     (Inr (''p=[];u=[];a={'' @ newline @ ''  "en": "",'' @ newline @ ''  "es": ""'' @ newline @
           ''};e=a@b.com''),
      fs_site, [(Console_log, ''  Found 0 post(s)'')])\<close>
proof -
  have p: "readPosts example_host fs_site = (Inr [], fs_site, [])"
    by (simp add: readPosts_def io_defs Let_def fs_site_def)
  have u: "readJSON example_host [''content'', ''unlinked-comments.json''] (JArr []) fs_site =
     (Inr (JArr []), fs_site, [])"
    by (simp add: readJSON_eq fs_site_def)
  have a: "readJSON example_host [''content'', ''about.json''] (JObj [(''en'', JStr []), (''es'', JStr [])])
     fs_site = (Inr (JObj [(''en'', JStr []), (''es'', JStr [])]), fs_site, [])"
    by (simp add: readJSON_eq fs_site_def)
  have s: "readJSON example_host [''content'', ''site.json''] (JObj []) fs_site =
     (Inr (JObj [(''contact_email'', JStr ''a@b.com'')]), fs_site, [])"
    by (simp add: readJSON_eq fs_site_def example_host_def example_parse_def)
  have g: "get_prop (Some (JObj [(''contact_email'', JStr ''a@b.com'')])) ''contact_email'' =
     Inr (Some (JStr ''a@b.com''))"
    by simp
  have t: "to_string example_host (or_empty (Some (JStr ''a@b.com''))) = Inr ''a@b.com''"
    by simp
  have n: "\<not> has_pattern ''a@b.com''" by simp
  from injectData_replaces_tokens[OF p u a s g t, of all_tokens]
  obtain html3 html4 where r: "injectData example_host all_tokens fs_site =
      (Inr html4, fs_site, [] @ [(Console_log, ''  Found '' @ show_nat (length ([]::json list)) @ '' post(s)'')])"
    "html3 = replace (replace (replace all_tokens POSTS_JSON (JSON_stringify example_host (JArr [])))
        UNLINKED_JSON (JSON_stringify example_host (JArr [])))
        ABOUT_JSON (JSON_stringify example_host (JObj [(''en'', JStr []), (''es'', JStr [])]))"
    "replaces_token html3 CONTACT_EMAIL ''a@b.com'' html4"
    by blast
  have h3: \<open>html3 = ''p=[];u=[];a={'' @ newline @ ''  "en": "",'' @ newline @ ''  "es": ""'' @ newline @
      ''};e=/*__CONTACT_EMAIL__*/''\<close>
    unfolding r(2)
    by (simp add: all_tokens_def replace_def POSTS_JSON_def UNLINKED_JSON_def
        ABOUT_JSON_def example_host_def example_stringify_def newline_def)
  from r(3) n have rf: "replaces_first html3 CONTACT_EMAIL ''a@b.com'' html4"
    unfolding replaces_token_def by auto
  then have h4: \<open>html4 = ''p=[];u=[];a={'' @ newline @ ''  "en": "",'' @ newline @ ''  "es": ""'' @
      newline @ ''};e=a@b.com''\<close>
    unfolding h3 by (simp add: replaces_first_iff replace_verbatim_def CONTACT_EMAIL_def newline_def)
  from r(1) rf h3 h4 p u a s g t n show ?thesis by (simp add: show_nat.simps)
qed

text \<open>
  Claim C2 as stated fails in two ways. Each \<^verbatim>\<open>replace\<close> works on the output of the
  one before: when the about text holds the contact-email token, the last call replaces
  the token there, and the placeholder of the template stays, so the output is not the
  template with its two placeholders replaced by the about text and by the contact
  email. And the value is a replacement template: for the contact email
  \<^verbatim>\<open>a$$b@c.com\<close> the output holds \<^verbatim>\<open>a$b@c.com\<close>, not the email itself.
\<close>

theorem injectData_token_in_data:
  \<open>readJSON example_host [''content'', ''about.json''] (JObj [(''en'', JStr []), (''es'', JStr [])])
     fs_about_with_token =
     (Inr (JObj [(''en'', JStr ''/*__CONTACT_EMAIL__*/''), (''es'', JStr [])]),
      fs_about_with_token, []) \<and>
   readJSON example_host [''content'', ''site.json''] (JObj []) fs_about_with_token =
     (Inr (JObj [(''contact_email'', JStr ''a@b.com'')]), fs_about_with_token, []) \<and>
   injectData example_host (''a='' @ ABOUT_JSON @ '';e='' @ CONTACT_EMAIL) fs_about_with_token =
     (Inr (''a={'' @ newline @ ''  "en": "a@b.com",'' @ newline @ ''  "es": ""'' @ newline @
           ''};e=/*__CONTACT_EMAIL__*/''),
      fs_about_with_token, [(Console_log, ''  Found 0 post(s)'')]) \<and>
   ''a={'' @ newline @ ''  "en": "a@b.com",'' @ newline @ ''  "es": ""'' @ newline @
     ''};e=/*__CONTACT_EMAIL__*/'' \<noteq>
   ''a='' @
     JSON_stringify example_host (JObj [(''en'', JStr ''/*__CONTACT_EMAIL__*/''), (''es'', JStr [])]) @
     '';e='' @ ''a@b.com'' \<and>
   readJSON example_host [''content'', ''site.json''] (JObj []) fs_site_dollar =
     (Inr (JObj [(''contact_email'', JStr ''a$$b@c.com'')]), fs_site_dollar, []) \<and>
   injectData example_host ''<a>/*__CONTACT_EMAIL__*/</a>'' fs_site_dollar =
     (Inr ''<a>a$b@c.com</a>'', fs_site_dollar, [(Console_log, ''  Found 0 post(s)'')]) \<and>
   \<not> replaces_first ''<a>/*__CONTACT_EMAIL__*/</a>'' CONTACT_EMAIL ''a$$b@c.com''
       ''<a>a$b@c.com</a>''\<close>
proof -
  have p: "readPosts example_host fs_about_with_token = (Inr [], fs_about_with_token, [])"
    by (simp add: readPosts_def io_defs Let_def fs_about_with_token_def)
  have u: "readJSON example_host [''content'', ''unlinked-comments.json''] (JArr [])
      fs_about_with_token = (Inr (JArr []), fs_about_with_token, [])"
    by (simp add: readJSON_eq fs_about_with_token_def)
  have a: "readJSON example_host [''content'', ''about.json''] (JObj [(''en'', JStr []), (''es'', JStr [])])
     fs_about_with_token =
     (Inr (JObj [(''en'', JStr ''/*__CONTACT_EMAIL__*/''), (''es'', JStr [])]),
      fs_about_with_token, [])"
    by (simp add: readJSON_eq fs_about_with_token_def example_host_def example_parse_def)
  have s: "readJSON example_host [''content'', ''site.json''] (JObj []) fs_about_with_token =
     (Inr (JObj [(''contact_email'', JStr ''a@b.com'')]), fs_about_with_token, [])"
    by (simp add: readJSON_eq fs_about_with_token_def example_host_def example_parse_def)
  have v: \<open>injectData example_host (''a='' @ ABOUT_JSON @ '';e='' @ CONTACT_EMAIL) fs_about_with_token =
     (Inr (''a={'' @ newline @ ''  "en": "a@b.com",'' @ newline @ ''  "es": ""'' @ newline @
           ''};e=/*__CONTACT_EMAIL__*/''),
      fs_about_with_token, [(Console_log, ''  Found 0 post(s)'')])\<close>
    using p u a s
    by (simp add: injectData_def inject_all_def Let_def io_bind_def io_return_def io_lift_def
        console_log_def replace_def POSTS_JSON_def UNLINKED_JSON_def
        ABOUT_JSON_def CONTACT_EMAIL_def example_host_def example_stringify_def newline_def
        show_nat.simps del: lookup.simps)
  have n: \<open>''a={'' @ newline @ ''  "en": "a@b.com",'' @ newline @ ''  "es": ""'' @ newline @
     ''};e=/*__CONTACT_EMAIL__*/'' \<noteq>
   ''a='' @
     JSON_stringify example_host (JObj [(''en'', JStr ''/*__CONTACT_EMAIL__*/''), (''es'', JStr [])]) @
     '';e='' @ ''a@b.com''\<close>
    by (simp add: example_host_def example_stringify_def newline_def)
  from a s v n injectData_dollar_pattern show ?thesis by simp
qed

text \<open>
  Claim C3, as amended. If \<^verbatim>\<open>templates/entry.html\<close> is absent, the process ends with a
  non-zero exit code and the file system it leaves has no \<^verbatim>\<open>dist/index.html\<close>. The exit
  code is non-zero exactly when the process ended through \<^verbatim>\<open>process.exit(1)\<close>, which
  happens only when the entry template is absent, or through an uncaught exception.
\<close>

theorem build_exit_codes:
  "(lookup fs [''templates'', ''entry.html''] = None \<longrightarrow>
      exit_code (fst (run h elapsed fs)) \<noteq> 0 \<and>
      lookup (fst (snd (run h elapsed fs))) [''dist'', ''index.html''] = None) \<and>
   (exit_code (fst (run h elapsed fs)) \<noteq> 0 \<longleftrightarrow>
      (fst (run h elapsed fs) = Exited 1 \<and> lookup fs [''templates'', ''entry.html''] = None) \<or>
      (\<exists>e. fst (run h elapsed fs) = Uncaught e))"
proof (cases rule: run_cases[of h fs elapsed])
  case (entry_copied originHTML out s fs2 out2 r3 fs3 out3)
  then show ?thesis by (auto simp del: lookup.simps)
qed (simp_all add: lookup_cleaned_dist del: lookup.simps)

theorem build_exit_codes_witness:
  "lookup fs_no_entry [''templates'', ''entry.html''] = None \<and>
   exit_code (fst (run example_host ''0.01'' fs_no_entry)) \<noteq> 0 \<and>
   lookup (fst (snd (run example_host ''0.01'' fs_no_entry))) [''dist'', ''index.html''] = None \<and>
   fst (run example_host ''0.01'' fs_no_entry) = Exited 1"
  using build_exit_codes[of fs_no_entry example_host "''0.01''"]
  by (simp add: fs_no_entry_def run_def build_eq cleaned_def entry_step_eq origin_step_def
      buildOriginHTML_def readJSON_eq io_defs)

text \<open>
  Claim C3 as stated fails: with the entry template in place and an
  \<^verbatim>\<open>origin.json\<close> that has no \<^verbatim>\<open>body\<close>, the build ends with an uncaught
  \<open>TypeError\<close>, exit code 1.
\<close>

theorem build_fails_with_entry_present:
  "lookup fs_origin_without_body [''templates'', ''entry.html''] = Some (File ''<h1>entry</h1>'') \<and>
   fst (run example_host ''0.01'' fs_origin_without_body) = Uncaught TypeError \<and>
   exit_code (fst (run example_host ''0.01'' fs_origin_without_body)) = 1"
  by (simp add: fs_origin_without_body_def example_templates_def run_def build_eq cleaned_def
      origin_step_def buildOriginHTML_def readJSON_eq io_defs example_host_def example_parse_def)

text \<open>
  Claim C4. When a file of the posts directory whose name ends in \<^verbatim>\<open>.json\<close> does not
  parse, \<open>readPosts\<close> prints a warning with the file's name and the parser's message;
  what it returns is what it returns without that file, and a collection it returns
  holds exactly the posts parsed from the other files. The build ends as it does without
  the file and leaves the same \<^verbatim>\<open>dist\<close>: the malformed post changes nothing but the
  console. When the posts parsed from the other files are entries the comparator accepts,
  \<open>readPosts\<close> returns them; and when moreover the other inputs of the build are in
  order (the origin document, if any, renders; \<^verbatim>\<open>site.json\<close> does not hold
  \<^verbatim>\<open>null\<close>, and the contact email converts to a string), the build completes and
  \<^verbatim>\<open>dist\<close> holds every output: the entry page, the two origin pages and the blog page
  for the templates that are there, the blog page listing the other posts, and the
  copies of \<^verbatim>\<open>assets\<close> and \<^verbatim>\<open>CNAME\<close>.
\<close>

theorem malformed_post_omitted:
  assumes "lookup fs [''content'', ''posts''] = Some (Dir ps)"
    and "map_of ps f = Some (File text)"
    and "JSON_parse h (toString_utf8 text) = Inl m"
    and "endsWith f ''.json''"
  shows "post_warning f m \<in> set (snd (snd (readPosts h fs))) \<and>
         fst (readPosts h (without_post f fs)) = fst (readPosts h fs) \<and>
         (\<forall>posts. fst (readPosts h fs) = Inr posts \<longrightarrow>
            mset posts = mset (parsed_posts h (AList.delete f ps))) \<and>
         fst (run h elapsed (without_post f fs)) = fst (run h elapsed fs) \<and>
         map_of (fst (snd (run h elapsed (without_post f fs)))) ''dist'' =
           map_of (fst (snd (run h elapsed fs))) ''dist'' \<and>
         ((\<forall>v\<in>set (parsed_posts h (AList.delete f ps)). date_is_text v) \<longrightarrow>
            (\<exists>posts.
               readPosts h fs = (Inr posts, fs, post_warnings h ps) \<and>
               mset posts = mset (parsed_posts h (AList.delete f ps)) \<and>
               (inputs_in_order fs \<longrightarrow>
                fst (buildOriginHTML h fs) = Inr originHTML \<longrightarrow>
                readJSON h [''content'', ''unlinked-comments.json''] (JArr []) fs =
                  (Inr unlinked, fs, []) \<longrightarrow>
                readJSON h [''content'', ''about.json''] (JObj [(''en'', JStr []), (''es'', JStr [])]) fs =
                  (Inr about, fs, []) \<longrightarrow>
                readJSON h [''content'', ''site.json''] (JObj []) fs = (Inr site, fs, []) \<longrightarrow>
                get_prop (Some site) ''contact_email'' = Inr contact_email \<longrightarrow>
                to_string h (or_empty contact_email) = Inr address \<longrightarrow>
                  fst (run h elapsed fs) = Completed \<and>
                  map_of (fst (snd (run h elapsed fs))) ''dist'' =
                    Some (Dir (output_tree fs originHTML
                      (injected h posts unlinked about address))))))"
proof -
  from assms(1) obtain a where a: "map_of fs ''content'' = Some (Dir a)"
    "map_of a ''posts'' = Some (Dir ps)"
    by (auto split: option.splits node.splits if_splits)
  let ?C = "Dir (AList.update ''posts'' (Dir (AList.delete f ps)) a)"
  have w: "without_post f fs = AList.update ''content'' ?C fs"
    using a by (rule without_post_eq)
  have tp: "try_post h (map_of ps f) = Inl m" using assms(2,3) by (simp del: toString_utf8_ascii)
  have pr: "post_removed h f (Dir a) ?C"
    unfolding post_removed_def using a(2) tp by blast
  have 1: "post_warning f m \<in> set (snd (snd (readPosts h fs)))"
    using post_warning_logged[OF assms(2,3,4)] by (simp add: readPosts_eq[OF assms(1)])
  from simD[OF sim_readPosts pr a(1)]
  have 2: "fst (readPosts h (without_post f fs)) = fst (readPosts h fs)"
    unfolding w by auto
  have 3: "mset posts = mset (parsed_posts h (AList.delete f ps))"
    if "fst (readPosts h fs) = Inr posts" for posts
  proof -
    from that have "Array_sort (posts_comparefn h) (parsed_posts h ps) = Inr posts"
      by (simp add: readPosts_eq[OF assms(1)] split: sum.splits)
    then have "mset posts = mset (parsed_posts h ps)" by (rule Array_sort_mset)
    then show ?thesis by (simp add: parsed_posts_delete[OF tp])
  qed
  from simD[OF sim_build pr a(1), of elapsed]
  obtain r fs' out out' where b: "build h elapsed fs = (r, fs', out)"
    "build h elapsed (AList.update ''content'' ?C fs) = (r, AList.update ''content'' ?C fs', out')"
    by blast
  have 4: "fst (run h elapsed (without_post f fs)) = fst (run h elapsed fs)"
    "map_of (fst (snd (run h elapsed (without_post f fs)))) ''dist'' =
           map_of (fst (snd (run h elapsed fs))) ''dist''"
    unfolding w using b by (simp_all add: run_def AList.update_conv')
  have 5: "\<exists>posts.
       readPosts h fs = (Inr posts, fs, post_warnings h ps) \<and>
       mset posts = mset (parsed_posts h (AList.delete f ps)) \<and>
       (inputs_in_order fs \<longrightarrow>
        fst (buildOriginHTML h fs) = Inr originHTML \<longrightarrow>
        readJSON h [''content'', ''unlinked-comments.json''] (JArr []) fs =
          (Inr unlinked, fs, []) \<longrightarrow>
        readJSON h [''content'', ''about.json''] (JObj [(''en'', JStr []), (''es'', JStr [])]) fs =
          (Inr about, fs, []) \<longrightarrow>
        readJSON h [''content'', ''site.json''] (JObj []) fs = (Inr site, fs, []) \<longrightarrow>
        get_prop (Some site) ''contact_email'' = Inr contact_email \<longrightarrow>
        to_string h (or_empty contact_email) = Inr address \<longrightarrow>
          fst (run h elapsed fs) = Completed \<and>
          map_of (fst (snd (run h elapsed fs))) ''dist'' =
            Some (Dir (output_tree fs originHTML (injected h posts unlinked about address))))"
    if d: "\<forall>v\<in>set (parsed_posts h (AList.delete f ps)). date_is_text v"
  proof -
    from d have "\<forall>v\<in>set (parsed_posts h ps). date_is_text v"
      by (simp add: parsed_posts_delete[OF tp])
    from sort_posts_returns[OF this, of h]
    obtain posts where p: "Array_sort (posts_comparefn h) (parsed_posts h ps) = Inr posts"
      "mset posts = mset (parsed_posts h ps)" by blast
    have rp: "readPosts h fs = (Inr posts, fs, post_warnings h ps)"
      by (simp add: readPosts_eq[OF assms(1)] p(1))
    have ms: "mset posts = mset (parsed_posts h (AList.delete f ps))"
      using p(2) by (simp add: parsed_posts_delete[OF tp])
    have "fst (run h elapsed fs) = Completed \<and>
          map_of (fst (snd (run h elapsed fs))) ''dist'' =
            Some (Dir (output_tree fs originHTML (injected h posts unlinked about address)))"
      if io: "inputs_in_order fs"
        and o: "fst (buildOriginHTML h fs) = Inr originHTML"
        and u: "readJSON h [''content'', ''unlinked-comments.json''] (JArr []) fs =
          (Inr unlinked, fs, [])"
        and ab: "readJSON h [''content'', ''about.json''] (JObj [(''en'', JStr []), (''es'', JStr [])]) fs =
          (Inr about, fs, [])"
        and s: "readJSON h [''content'', ''site.json''] (JObj []) fs = (Inr site, fs, [])"
        and g: "get_prop (Some site) ''contact_email'' = Inr contact_email"
        and t: "to_string h (or_empty contact_email) = Inr address"
    proof -
      have i: "fst (injectData h html fs) = Inr (injected h posts unlinked about address html)"
        for html
        using rp u ab s g t
        by (simp add: injectData_def inject_all_def injected_def Let_def io_bind_def io_return_def
            io_lift_def console_log_def del: lookup.simps or_empty.simps)
      from run_completes[OF io o i, of elapsed] show ?thesis
        by (simp add: map_of_with_dist)
    qed
    with rp ms show ?thesis by blast
  qed
  from 1 2 3 4 5 show ?thesis by blast
qed

theorem malformed_post_omitted_witness:
  \<open>lookup fs_broken_post [''content'', ''posts''] = Some (Dir posts_with_broken) \<and>
   map_of posts_with_broken ''bad.json'' = Some (File ''{ broken'') \<and>
   JSON_parse example_host (toString_utf8 ''{ broken'') =
     Inl ''Unexpected token b in JSON at position 2'' \<and>
   endsWith ''bad.json'' ''.json'' \<and>
   parsed_posts example_host (AList.delete ''bad.json'' posts_with_broken) =
     [JObj [(''date'', JStr ''2024-01-01'')]] \<and>
   date_is_text (JObj [(''date'', JStr ''2024-01-01'')]) \<and>
   inputs_in_order fs_broken_post \<and>
   fst (buildOriginHTML example_host fs_broken_post) = Inr None \<and>
   readJSON example_host [''content'', ''unlinked-comments.json''] (JArr []) fs_broken_post =
     (Inr (JArr []), fs_broken_post, []) \<and>
   readJSON example_host [''content'', ''about.json''] (JObj [(''en'', JStr []), (''es'', JStr [])])
     fs_broken_post = (Inr (JObj [(''en'', JStr []), (''es'', JStr [])]), fs_broken_post, []) \<and>
   readJSON example_host [''content'', ''site.json''] (JObj []) fs_broken_post =
     (Inr (JObj []), fs_broken_post, []) \<and>
   get_prop (Some (JObj [])) ''contact_email'' = Inr None \<and>
   to_string example_host (or_empty None) = Inr [] \<and>
   readPosts example_host fs_broken_post =
     (Inr [JObj [(''date'', JStr ''2024-01-01'')]], fs_broken_post,
      [post_warning ''bad.json'' ''Unexpected token b in JSON at position 2'']) \<and>
   fst (readPosts example_host (without_post ''bad.json'' fs_broken_post)) =
     Inr [JObj [(''date'', JStr ''2024-01-01'')]] \<and>
   fst (run example_host ''0.01'' fs_broken_post) = Completed \<and>
   fst (run example_host ''0.01'' (without_post ''bad.json'' fs_broken_post)) = Completed \<and>
   map_of (fst (snd (run example_host ''0.01'' fs_broken_post))) ''dist'' =
     Some (Dir
       [(''index.html'', File ''<h1>entry</h1>''),
        (''ripple.html'', File ''<main><!-- __ORIGIN_HTML__ --></main>''),
        (''clean.html'', File ''<div><!-- __ORIGIN_HTML__ --></div>''),
        (''blog.html'', File (''<script>var posts = ['' @ newline @ ''  {'' @ newline @
           ''    "date": "2024-01-01"'' @ newline @ ''  }'' @ newline @ ''];</script>'')),
        (''assets'', Dir [(''style.css'', File ''body{}''),
                          (''img'', Dir [(''logo.svg'', File ''<svg/>'')])]),
        (''CNAME'', File ''example.org'')])\<close>
proof -
  have l: "lookup fs_broken_post [''content'', ''posts''] = Some (Dir posts_with_broken)"
    by (simp add: fs_broken_post_def)
  have m: \<open>map_of posts_with_broken ''bad.json'' = Some (File ''{ broken'')\<close>
    by (simp add: posts_with_broken_def)
  have j: \<open>JSON_parse example_host (toString_utf8 ''{ broken'') =
      Inl ''Unexpected token b in JSON at position 2''\<close>
    by (simp add: example_host_def example_parse_def)
  have e: "endsWith ''bad.json'' ''.json''" by (simp add: endsWith_def)
  have pd: "parsed_posts example_host (AList.delete ''bad.json'' posts_with_broken) =
      [JObj [(''date'', JStr ''2024-01-01'')]]"
    by (simp add: parsed_posts_def post_names_def posts_with_broken_def endsWith_def example_host_def
        example_parse_def)
  have dt: "date_is_text (JObj [(''date'', JStr ''2024-01-01'')])" by simp
  have io: "inputs_in_order fs_broken_post"
    by (simp add: inputs_in_order_def fs_broken_post_def example_assets_def)
  have o: "fst (buildOriginHTML example_host fs_broken_post) = Inr None"
    by (simp add: buildOriginHTML_absent fs_broken_post_def)
  have u: "readJSON example_host [''content'', ''unlinked-comments.json''] (JArr []) fs_broken_post =
     (Inr (JArr []), fs_broken_post, [])"
    by (simp add: readJSON_eq fs_broken_post_def)
  have a: "readJSON example_host [''content'', ''about.json''] (JObj [(''en'', JStr []), (''es'', JStr [])])
     fs_broken_post = (Inr (JObj [(''en'', JStr []), (''es'', JStr [])]), fs_broken_post, [])"
    by (simp add: readJSON_eq fs_broken_post_def)
  have s: "readJSON example_host [''content'', ''site.json''] (JObj []) fs_broken_post =
     (Inr (JObj []), fs_broken_post, [])"
    by (simp add: readJSON_eq fs_broken_post_def)
  have g: "get_prop (Some (JObj [])) ''contact_email'' = Inr None" by simp
  have t: "to_string example_host (or_empty None) = Inr []" by simp
  have pp: "parsed_posts example_host posts_with_broken = [JObj [(''date'', JStr ''2024-01-01'')]]"
    by (simp add: parsed_posts_def post_names_def posts_with_broken_def endsWith_def example_host_def
        example_parse_def)
  have pw: "post_warnings example_host posts_with_broken =
      [post_warning ''bad.json'' ''Unexpected token b in JSON at position 2'']"
    by (simp add: post_warnings_def post_names_def posts_with_broken_def endsWith_def example_host_def
        example_parse_def)
  have rp: "readPosts example_host fs_broken_post =
     (Inr [JObj [(''date'', JStr ''2024-01-01'')]], fs_broken_post,
      [post_warning ''bad.json'' ''Unexpected token b in JSON at position 2''])"
    by (simp add: readPosts_eq[OF l] pp pw Array_sort_def)
  note th = malformed_post_omitted[OF l m j e, of "''0.01''" None "JArr []"
      "JObj [(''en'', JStr []), (''es'', JStr [])]" "JObj []" None "[]"]
  from th[THEN conjunct2, THEN conjunct1] rp
  have w1: "fst (readPosts example_host (without_post ''bad.json'' fs_broken_post)) =
     Inr [JObj [(''date'', JStr ''2024-01-01'')]]"
    by simp
  note w2 = th[THEN conjunct2, THEN conjunct2, THEN conjunct2, THEN conjunct1]
  have "\<forall>v\<in>set (parsed_posts example_host (AList.delete ''bad.json'' posts_with_broken)).
      date_is_text v"
    unfolding pd by simp
  with th[THEN conjunct2, THEN conjunct2, THEN conjunct2, THEN conjunct2, THEN conjunct2]
  obtain posts where c1: "readPosts example_host fs_broken_post =
      (Inr posts, fs_broken_post, post_warnings example_host posts_with_broken)"
    and c2: "inputs_in_order fs_broken_post \<longrightarrow>
        fst (buildOriginHTML example_host fs_broken_post) = Inr None \<longrightarrow>
        readJSON example_host [''content'', ''unlinked-comments.json''] (JArr []) fs_broken_post =
          (Inr (JArr []), fs_broken_post, []) \<longrightarrow>
        readJSON example_host [''content'', ''about.json''] (JObj [(''en'', JStr []), (''es'', JStr [])])
          fs_broken_post = (Inr (JObj [(''en'', JStr []), (''es'', JStr [])]), fs_broken_post, []) \<longrightarrow>
        readJSON example_host [''content'', ''site.json''] (JObj []) fs_broken_post =
          (Inr (JObj []), fs_broken_post, []) \<longrightarrow>
        get_prop (Some (JObj [])) ''contact_email'' = Inr None \<longrightarrow>
        to_string example_host (or_empty None) = Inr [] \<longrightarrow>
          fst (run example_host ''0.01'' fs_broken_post) = Completed \<and>
          map_of (fst (snd (run example_host ''0.01'' fs_broken_post))) ''dist'' =
            Some (Dir (output_tree fs_broken_post None
              (injected example_host posts (JArr []) (JObj [(''en'', JStr []), (''es'', JStr [])]) [])))"
    by blast
  from c2 io o u a s g t
  have c: "fst (run example_host ''0.01'' fs_broken_post) = Completed"
    "map_of (fst (snd (run example_host ''0.01'' fs_broken_post))) ''dist'' =
       Some (Dir (output_tree fs_broken_post None
         (injected example_host posts (JArr []) (JObj [(''en'', JStr []), (''es'', JStr [])]) [])))"
    by blast+
  from c1 rp have posts: "posts = [JObj [(''date'', JStr ''2024-01-01'')]]" by simp
  have tree: \<open>output_tree fs_broken_post None
      (injected example_host [JObj [(''date'', JStr ''2024-01-01'')]] (JArr [])
         (JObj [(''en'', JStr []), (''es'', JStr [])]) []) =
       [(''index.html'', File ''<h1>entry</h1>''),
        (''ripple.html'', File ''<main><!-- __ORIGIN_HTML__ --></main>''),
        (''clean.html'', File ''<div><!-- __ORIGIN_HTML__ --></div>''),
        (''blog.html'', File (''<script>var posts = ['' @ newline @ ''  {'' @ newline @
           ''    "date": "2024-01-01"'' @ newline @ ''  }'' @ newline @ ''];</script>'')),
        (''assets'', Dir [(''style.css'', File ''body{}''),
                          (''img'', Dir [(''logo.svg'', File ''<svg/>'')])]),
        (''CNAME'', File ''example.org'')]\<close>
    by (simp add: output_tree_def fs_broken_post_def example_assets_def injectOrigin_def
        injected_def replace_def POSTS_JSON_def UNLINKED_JSON_def ABOUT_JSON_def CONTACT_EMAIL_def
        example_host_def example_stringify_def newline_def)
  note c' = c[unfolded posts tree]
  from w2 c'(1)
  have w3: "fst (run example_host ''0.01'' (without_post ''bad.json'' fs_broken_post)) = Completed"
    by simp
  from l m j e pd dt io have 1: \<open>lookup fs_broken_post [''content'', ''posts''] = Some (Dir posts_with_broken) \<and>
   map_of posts_with_broken ''bad.json'' = Some (File ''{ broken'') \<and>
   JSON_parse example_host (toString_utf8 ''{ broken'') =
     Inl ''Unexpected token b in JSON at position 2'' \<and>
   endsWith ''bad.json'' ''.json'' \<and>
   parsed_posts example_host (AList.delete ''bad.json'' posts_with_broken) =
     [JObj [(''date'', JStr ''2024-01-01'')]] \<and>
   date_is_text (JObj [(''date'', JStr ''2024-01-01'')]) \<and>
   inputs_in_order fs_broken_post\<close>
    by blast
  from 1 o u a s g t rp w1 w3 c' show ?thesis by blast
qed




text \<open>
  Claim C6. Running the build again on the file system the first run left gives the
  same outcome, the same file system (so the same output tree) and the same console
  lines; with another elapsed time, the one thing the clock decides, the outcome and the
  file system are still the same. What a run finds in \<^verbatim>\<open>dist\<close> has no effect on it.
\<close>

theorem build_idempotent:
  "run h elapsed (fst (snd (run h elapsed fs))) = run h elapsed fs \<and>
   fst (run h elapsed' (fst (snd (run h elapsed fs)))) = fst (run h elapsed fs) \<and>
   fst (snd (run h elapsed' (fst (snd (run h elapsed fs))))) = fst (snd (run h elapsed fs))"
proof -
  have eq: "run h t (fst (snd (run h elapsed fs))) = run h t fs" for t
    by (rule run_cong) (rule run_outside_dist)
  show ?thesis using eq[of elapsed] eq[of elapsed'] run_elapsed[of h elapsed' fs elapsed] by simp
qed

text \<open>
  Claim C7. \<open>readJSON\<close> returns the parsed content of the file, or the fallback when
  there is no file at the path or its text does not parse (or the path is a directory);
  it never throws and prints nothing. When the three optional inputs of \<open>injectData\<close>
  are missing and \<open>readPosts\<close> returns, \<open>injectData\<close> returns, with the defaults
  \<^verbatim>\<open>[]\<close>, \<^verbatim>\<open>{en:'', es:''}\<close> and the empty string substituted.
\<close>

theorem readJSON_fallback:
  "readJSON h p fallback fs =
     (Inr (case lookup fs p of
             Some (File bytes) \<Rightarrow>
               (case JSON_parse h (toString_utf8 bytes) of Inl m \<Rightarrow> fallback | Inr v \<Rightarrow> v)
           | _ \<Rightarrow> fallback), fs, []) \<and>
   (lookup fs [''content'', ''unlinked-comments.json''] = None \<longrightarrow>
    lookup fs [''content'', ''about.json''] = None \<longrightarrow>
    lookup fs [''content'', ''site.json''] = None \<longrightarrow>
    readPosts h fs = (Inr posts, fs, out) \<longrightarrow>
    injectData h html fs =
      (Inr (replace
             (replace
               (replace
                 (replace html POSTS_JSON (JSON_stringify h (JArr posts)))
                 UNLINKED_JSON (JSON_stringify h (JArr [])))
               ABOUT_JSON (JSON_stringify h (JObj [(''en'', JStr []), (''es'', JStr [])])))
             CONTACT_EMAIL []),
       fs, out @ [(Console_log, ''  Found '' @ show_nat (length posts) @ '' post(s)'')]))"
  by (simp add: readJSON_eq injectData_def inject_all_def Let_def io_defs del: lookup.simps)

theorem readJSON_fallback_witness:
  \<open>lookup fs_templates_only [''content'', ''unlinked-comments.json''] = None \<and>
   lookup fs_templates_only [''content'', ''about.json''] = None \<and>
   lookup fs_templates_only [''content'', ''site.json''] = None \<and>
   readPosts example_host fs_templates_only = (Inr [], fs_templates_only, []) \<and>
   readJSON example_host [''content'', ''site.json''] (JObj []) fs_templates_only =
     (Inr (JObj []), fs_templates_only, []) \<and>
   injectData example_host all_tokens fs_templates_only =
     (Inr (''p=[];u=[];a={'' @ newline @ ''  "en": "",'' @ newline @ ''  "es": ""'' @ newline @
           ''};e=''),
      fs_templates_only, [(Console_log, ''  Found 0 post(s)'')])\<close>
proof -
  have p: "readPosts example_host fs_templates_only = (Inr [], fs_templates_only, [])"
    by (simp add: readPosts_def io_defs Let_def fs_templates_only_def)
  have l: "lookup fs_templates_only [''content'', ''unlinked-comments.json''] = None"
    "lookup fs_templates_only [''content'', ''about.json''] = None"
    "lookup fs_templates_only [''content'', ''site.json''] = None"
    by (simp_all add: fs_templates_only_def)
  from readJSON_fallback[of example_host "[''content'', ''site.json'']" "JObj []"
      fs_templates_only "[]" "[]" all_tokens] p l
  show ?thesis
    by (simp add: all_tokens_def replace_def POSTS_JSON_def UNLINKED_JSON_def ABOUT_JSON_def
        CONTACT_EMAIL_def example_host_def example_stringify_def newline_def show_nat.simps
        del: lookup.simps)
qed

text \<open>
  Claim C8. If the posts directory does not exist, \<open>readPosts\<close> returns the empty
  collection: it throws nothing, prints nothing and leaves the file system as it is.
\<close>

theorem readPosts_no_directory:
  "lookup fs [''content'', ''posts''] = None \<Longrightarrow> readPosts h fs = (Inr [], fs, [])"
  by (simp add: readPosts_def io_defs Let_def del: lookup.simps)

theorem readPosts_no_directory_witness:
  "lookup fs_templates_only [''content'', ''posts''] = None \<and>
   readPosts example_host fs_templates_only = (Inr [], fs_templates_only, [])"
  using readPosts_no_directory[of fs_templates_only example_host]
  by (simp add: fs_templates_only_def)

text \<open>
  Claim C9. If two or more files of the posts directory parse and one of them parses to
  \<^verbatim>\<open>null\<close>, the comparator of the sort throws a \<open>TypeError\<close>: \<open>readPosts\<close> and with
  it \<open>injectData\<close> throw instead of returning, and a build that has a blog template
  does not complete.
\<close>

theorem readPosts_null_post:
  assumes "lookup fs [''content'', ''posts''] = Some (Dir es)"
    and "JNull \<in> set (parsed_posts h es)" and "2 \<le> length (parsed_posts h es)"
  shows "readPosts h fs = (Inl (Throw TypeError), fs, post_warnings h es) \<and>
         injectData h html fs = (Inl (Throw TypeError), fs, post_warnings h es) \<and>
         (lookup fs [''templates'', ''blog.html''] = Some (File html) \<longrightarrow>
            fst (run h elapsed fs) \<noteq> Completed \<and> exit_code (fst (run h elapsed fs)) \<noteq> 0)"
proof -
  have rp: "readPosts h fs' = (Inl (Throw TypeError), fs', post_warnings h es)"
    if "outside_dist fs' = outside_dist fs" for fs'
  proof -
    have "lookup fs' [''content'', ''posts''] = Some (Dir es)"
      using assms(1) outside_dist_lookup[OF that, of "''content''" "[''posts'']"] by simp
    then show ?thesis
      using Array_sort_null[OF assms(2,3), of h] by (simp add: readPosts_eq del: lookup.simps)
  qed
  have 1: "readPosts h fs = (Inl (Throw TypeError), fs, post_warnings h es)" by (rule rp) simp
  have 2: "injectData h html fs = (Inl (Throw TypeError), fs, post_warnings h es)"
    using 1 by (rule injectData_throws)
  have 3: "fst (run h elapsed fs) \<noteq> Completed"
    if b: "lookup fs [''templates'', ''blog.html''] = Some (File html)"
  proof (cases rule: run_cases[of h fs elapsed])
    case (entry_copied originHTML out s fs2 out2 r3 fs3 out3)
    have "\<exists>a. fst (after_entry h elapsed originHTML fs2) = Inl a"
    proof (rule after_entry_blog_throws)
      fix fs' assume "outside_dist fs' = outside_dist fs2"
      with entry_copied(6) have o: "outside_dist fs' = outside_dist fs" by simp
      have "lookup fs' [''templates'', ''blog.html''] = Some (File html)"
        using b outside_dist_lookup[OF o, of "''templates''" "[''blog.html'']"] by simp
      then have "blog_step h fs' = (Inl (Throw TypeError), fs', post_warnings h es)"
        using rp[OF o] by (rule blog_step_throws)
      then show "\<exists>a out. blog_step h fs' = (Inl a, fs', out)" by blast
    qed
    then obtain a where "r3 = Inl a" using entry_copied(4) by auto
    with entry_copied(8) show ?thesis by (cases a) simp_all
  qed simp_all
  from 1 2 3 show ?thesis unfolding exit_code_nonzero by blast
qed

theorem readPosts_null_post_witness:
  "lookup fs_null_post [''content'', ''posts''] = Some (Dir posts_with_null) \<and>
   JNull \<in> set (parsed_posts example_host posts_with_null) \<and>
   2 \<le> length (parsed_posts example_host posts_with_null) \<and>
   readPosts example_host fs_null_post = (Inl (Throw TypeError), fs_null_post, []) \<and>
   injectData example_host ''<a>/*__CONTACT_EMAIL__*/</a>'' fs_null_post =
     (Inl (Throw TypeError), fs_null_post, []) \<and>
   lookup fs_null_post [''templates'', ''blog.html''] = Some (File ''<a>/*__CONTACT_EMAIL__*/</a>'') \<and>
   fst (run example_host ''0.01'' fs_null_post) \<noteq> Completed \<and>
   exit_code (fst (run example_host ''0.01'' fs_null_post)) \<noteq> 0"
  using readPosts_null_post[of fs_null_post posts_with_null example_host
      "''<a>/*__CONTACT_EMAIL__*/</a>''" "''0.01''"]
  by (simp add: fs_null_post_def posts_with_null_def example_templates_def parsed_posts_def
      post_warnings_def post_names_def endsWith_def example_host_def example_parse_def)

text \<open>
  Claim C10. If \<^verbatim>\<open>content/origin.json\<close> parses to a truthy value whose \<^verbatim>\<open>body\<close> is
  missing (or \<^verbatim>\<open>null\<close>), \<open>buildOriginHTML\<close> throws a \<open>TypeError\<close> instead of
  returning \<^verbatim>\<open>null\<close>, nothing catches it, and the build ends with exit code 1.
\<close>

theorem buildOriginHTML_no_body:
  assumes "lookup fs [''content'', ''origin.json''] = Some (File text)"
    and "JSON_parse h (toString_utf8 text) = Inr origin" and "truthy origin"
    and "get_prop (Some origin) ''body'' = Inr None \<or> get_prop (Some origin) ''body'' = Inr (Some JNull)"
  shows "buildOriginHTML h fs = (Inl (Throw TypeError), fs, []) \<and>
         fst (run h elapsed fs) = Uncaught TypeError \<and>
         exit_code (fst (run h elapsed fs)) = 1"
proof -
  have l: "lookup (cleaned fs) [''content'', ''origin.json''] = Some (File text)"
    using assms(1) lookup_cleaned[of "''content''" fs "[''origin.json'']"] by simp
  have "buildOriginHTML h (cleaned fs) = (Inl (Throw TypeError), cleaned fs, [])"
    using l assms(2-4) by (rule buildOriginHTML_throws)
  then have "origin_step h (cleaned fs) = (Inl (Throw TypeError), cleaned fs, [])"
    by (simp add: origin_step_def io_bind_def)
  then have "fst (run h elapsed fs) = Uncaught TypeError"
    by (simp add: run_def build_eq)
  with buildOriginHTML_throws[OF assms] show ?thesis by simp
qed

theorem buildOriginHTML_no_body_witness:
  \<open>lookup fs_origin_without_body [''content'', ''origin.json''] = Some (File ''{"title":"x"}'') \<and>
   JSON_parse example_host (toString_utf8 ''{"title":"x"}'') = Inr (JObj [(''title'', JStr ''x'')]) \<and>
   truthy (JObj [(''title'', JStr ''x'')]) \<and>
   get_prop (Some (JObj [(''title'', JStr ''x'')])) ''body'' = Inr None \<and>
   buildOriginHTML example_host fs_origin_without_body =
     (Inl (Throw TypeError), fs_origin_without_body, []) \<and>
   fst (run example_host ''0.01'' fs_origin_without_body) = Uncaught TypeError \<and>
   exit_code (fst (run example_host ''0.01'' fs_origin_without_body)) = 1\<close>
  using buildOriginHTML_no_body[of fs_origin_without_body \<open>''{"title":"x"}''\<close> example_host
      "JObj [(''title'', JStr ''x'')]" "''0.01''"]
  by (simp add: fs_origin_without_body_def example_host_def example_parse_def)

end
